theory Spec2Isabelle
  imports Main "HOL-Library.Word"
begin

unbundle bit_operations_syntax

section \<open>Data model of csim.c\<close>

text \<open>
  \<open>mem_addr_t\<close> is \<open>unsigned long long\<close>: a 64-bit word. A C \<open>int\<close> is a 32-bit
  two's complement word: \<open>sint\<close> reads the signed value and the comparison \<open><\<close> of
  two \<open>int\<close>s is the comparison of their \<open>sint\<close>. Overflow of a signed \<open>int\<close> is
  undefined in C; the model takes the wrap-around of the usual two's complement
  machines, so \<open>+\<close> and \<open>*\<close> on the counters and on \<open>S\<close> wrap.
\<close>

type_synonym mem_addr_t = "64 word"
type_synonym c_int = "32 word"

text \<open>
  \<open>struct cache_line\<close>. The field \<open>valid\<close> is a \<open>char\<close> that only ever holds 0 or 1
  and is only tested for truth: a \<open>bool\<close>.
\<close>

record cache_line =
  valid :: bool
  tag :: mem_addr_t
  lru :: c_int

type_synonym cache_set_t = "cache_line list"
type_synonym cache_t = "cache_set_t list"

text \<open>
  The global variables of the program, passed explicitly. \<open>glob_s\<close>, \<open>glob_E\<close>,
  \<open>glob_b\<close> are the globals \<open>s\<close>, \<open>E\<close>, \<open>b\<close> (set once from the command line and
  only read afterwards; the non-negative values of an \<open>int\<close>), \<open>glob_S\<close> is \<open>S\<close>.
  The heap arrays behind \<open>cache\<close> are a list of sets, each a list of lines, so an
  index outside a list is an access outside the allocation.
\<close>

record csim =
  glob_b :: nat
  glob_s :: nat
  glob_E :: nat
  glob_S :: c_int
  hit_cnt :: c_int
  miss_cnt :: c_int
  evict_cnt :: c_int
  cache :: cache_t
  lru_count :: c_int

datatype error =
    AllocFailed      \<comment> \<open>\<open>malloc\<close> returned NULL: \<open>exit(0)\<close>\<close>
  | ShiftTooWide     \<comment> \<open>shift of a 64-bit value by 64 or more: undefined in C\<close>
  | OutOfBounds      \<comment> \<open>access outside the arrays allocated by \<open>init_cache\<close>: undefined in C\<close>

text \<open>The globals as \<open>main\<close> leaves them after parsing the command line.\<close>

definition globals0 :: "nat \<Rightarrow> nat \<Rightarrow> nat \<Rightarrow> csim" where
  "globals0 sv Ev bv =
     \<lparr>glob_b = bv, glob_s = sv, glob_E = Ev, glob_S = 0,
      hit_cnt = 0, miss_cnt = 0, evict_cnt = 0, cache = [], lru_count = 0\<rparr>"

section \<open>init_cache\<close>

text \<open>\<open>S = 1; for (i = 0; i < s; i++) S *= 2;\<close> on a 32-bit \<open>int\<close>.\<close>

fun pow2_loop :: "nat \<Rightarrow> c_int \<Rightarrow> c_int" where
  "pow2_loop 0 acc = acc"
| "pow2_loop (Suc n) acc = pow2_loop n (acc * 2)"

definition empty_line :: cache_line where
  "empty_line = \<lparr>valid = False, tag = 0, lru = 0\<rparr>"

text \<open>
  \<open>heap_ok\<close> says whether every \<open>malloc\<close> of the call returns memory. A negative \<open>S\<close>
  converts to a request of more than \<open>2 ^ 63\<close> bytes, which no \<open>malloc\<close> grants. The
  two nested loops write the empty line into each of the \<open>E\<close> lines of each of the
  \<open>S\<close> sets.
\<close>

definition init_cache :: "bool \<Rightarrow> csim \<Rightarrow> error + csim" where
  "init_cache heap_ok st =
     (let S' = pow2_loop (glob_s st) 1 in
      if \<not> heap_ok \<or> sint S' < 0 then Inl AllocFailed
      else Inr (st\<lparr>glob_S := S',
                   cache := map (\<lambda>i. map (\<lambda>j. empty_line) [0..<glob_E st])
                                [0..<nat (sint S')]\<rparr>))"

section \<open>access_data\<close>

text \<open>\<open>mem_addr_t tag = addr >> (s+b);\<close>\<close>

definition addr_tag :: "nat \<Rightarrow> nat \<Rightarrow> mem_addr_t \<Rightarrow> mem_addr_t" where
  "addr_tag sv bv addr = drop_bit (sv + bv) addr"

text \<open>
  \<open>int currSet = (addr - (tag << (s+b))) >> b;\<close> The 64-bit value is converted to
  \<open>int\<close>: its low 32 bits, read as two's complement.
\<close>

definition currSet :: "nat \<Rightarrow> nat \<Rightarrow> mem_addr_t \<Rightarrow> int" where
  "currSet sv bv addr =
     sint (ucast (drop_bit bv (addr - push_bit (sv + bv) (addr_tag sv bv addr))) :: c_int)"

text \<open>
  The hit scan: \<open>for (i = 0; i < E; i++) if (line i has the tag and is valid) ...\<close>;
  \<open>Some i\<close> is the line at which the loop returns, \<open>None\<close> its falling through.
\<close>

function hit_loop :: "cache_set_t \<Rightarrow> mem_addr_t \<Rightarrow> nat \<Rightarrow> nat \<Rightarrow> nat option" where
  "hit_loop ls tg En i =
     (if i < En
      then (if tag (ls ! i) = tg \<and> valid (ls ! i) then Some i
            else hit_loop ls tg En (Suc i))
      else None)"
  by pat_completeness auto
termination
  by (relation "measure (\<lambda>(ls, tg, En, i). En - i)") auto

text \<open>The scan for a free line: \<open>for (i = 0; i < E; i++) if (!valid) ...\<close>.\<close>

function fill_loop :: "cache_set_t \<Rightarrow> nat \<Rightarrow> nat \<Rightarrow> nat option" where
  "fill_loop ls En i =
     (if i < En
      then (if \<not> valid (ls ! i) then Some i else fill_loop ls En (Suc i))
      else None)"
  by pat_completeness auto
termination
  by (relation "measure (\<lambda>(ls, En, i). En - i)") auto

text \<open>
  The scan for the victim:
  \<open>for (i = 0; i < E; i++) if (line i .lru < line \<open>line\<close> .lru) line = i;\<close>
  with the signed comparison of two \<open>int\<close>s.
\<close>

function evict_loop :: "cache_set_t \<Rightarrow> nat \<Rightarrow> nat \<Rightarrow> nat \<Rightarrow> nat" where
  "evict_loop ls En i line =
     (if i < En
      then evict_loop ls En (Suc i)
             (if sint (lru (ls ! i)) < sint (lru (ls ! line)) then i else line)
      else line)"
  by pat_completeness auto
termination
  by (relation "measure (\<lambda>(ls, En, i, line). En - i)") auto

declare hit_loop.simps [simp del] fill_loop.simps [simp del] evict_loop.simps [simp del]

text \<open>
  \<open>access_data\<close>. The C code checks nothing: a shift by 64 or more and an index
  outside the arrays are undefined there and are errors here. The lines the three
  scans and the final write may touch are the lines \<open>0 .. max 1 E - 1\<close> of set
  \<open>currSet\<close>.
\<close>

definition access_data :: "mem_addr_t \<Rightarrow> csim \<Rightarrow> error + csim" where
  "access_data addr st =
     (if 64 \<le> glob_s st + glob_b st then Inl ShiftTooWide
      else
        let tg = addr_tag (glob_s st) (glob_b st) addr;
            cs = currSet (glob_s st) (glob_b st) addr
        in if cs < 0 \<or> int (length (cache st)) \<le> cs then Inl OutOfBounds
           else
             let k = nat cs; ls = cache st ! k
             in if length ls < max 1 (glob_E st) then Inl OutOfBounds
                else
                  (case hit_loop ls tg (glob_E st) 0 of
                     Some i \<Rightarrow>
                       Inr (st\<lparr>cache := (cache st)[k := ls[i := (ls ! i)\<lparr>lru := lru_count st\<rparr>]],
                               hit_cnt := hit_cnt st + 1,
                               lru_count := lru_count st + 1\<rparr>)
                   | None \<Rightarrow>
                       (case fill_loop ls (glob_E st) 0 of
                          Some i \<Rightarrow>
                            Inr (st\<lparr>miss_cnt := miss_cnt st + 1,
                                    cache := (cache st)[k := ls[i := (ls ! i)
                                      \<lparr>lru := lru_count st, valid := True, tag := tg\<rparr>]]\<rparr>)
                        | None \<Rightarrow>
                            let line = evict_loop ls (glob_E st) 0 0
                            in Inr (st\<lparr>miss_cnt := miss_cnt st + 1,
                                       evict_cnt := evict_cnt st + 1,
                                       cache := (cache st)[k := ls[line := (ls ! line)
                                         \<lparr>lru := lru_count st, tag := tg\<rparr>]]\<rparr>))))"

section \<open>replay_trace\<close>

text \<open>
  A trace record as \<open>replay_trace\<close> reads it: the operation character \<open>buf[1]\<close> and
  the address scanned by \<open>sscanf\<close> (the length is read and not used). Opening and
  reading the file are outside the model.
\<close>

type_synonym trace_record = "char \<times> mem_addr_t"

fun access_seq :: "mem_addr_t list \<Rightarrow> csim \<Rightarrow> error + csim" where
  "access_seq [] st = Inr st"
| "access_seq (a # as) st =
     (case access_data a st of Inl e \<Rightarrow> Inl e | Inr st' \<Rightarrow> access_seq as st')"

definition record_accesses :: "trace_record \<Rightarrow> mem_addr_t list" where
  "record_accesses r =
     (if fst r = CHR ''S'' \<or> fst r = CHR ''L'' then [snd r]
      else if fst r = CHR ''M'' then [snd r, snd r]
      else [])"

fun replay_trace :: "trace_record list \<Rightarrow> csim \<Rightarrow> error + csim" where
  "replay_trace [] st = Inr st"
| "replay_trace (r # rs) st =
     (case access_seq (record_accesses r) st of
        Inl e \<Rightarrow> Inl e
      | Inr st' \<Rightarrow> replay_trace rs st')"

section \<open>Well-formed states\<close>

text \<open>
  The state \<open>init_cache\<close> builds for a geometry it can represent: \<open>2 ^ s\<close> fits an
  \<open>int\<close>, the shifts are narrower than an address, and the cache is \<open>2 ^ s\<close> sets
  of \<open>E\<close> lines with \<open>E\<close> positive.
\<close>

definition lines_ok :: "csim \<Rightarrow> bool" where
  "lines_ok st \<longleftrightarrow> (\<forall>ls \<in> set (cache st). length ls = glob_E st)"

definition wf_cache :: "csim \<Rightarrow> bool" where
  "wf_cache st \<longleftrightarrow>
     glob_s st \<le> 30 \<and> glob_s st + glob_b st < 64 \<and> 0 < glob_E st \<and>
     length (cache st) = 2 ^ glob_s st \<and> lines_ok st"

text \<open>The tag, the set number and the set of an address in a state.\<close>

definition tag_of :: "csim \<Rightarrow> mem_addr_t \<Rightarrow> mem_addr_t" where
  "tag_of st addr = addr_tag (glob_s st) (glob_b st) addr"

definition set_of :: "csim \<Rightarrow> mem_addr_t \<Rightarrow> nat" where
  "set_of st addr = nat (currSet (glob_s st) (glob_b st) addr)"

definition lines_of :: "csim \<Rightarrow> mem_addr_t \<Rightarrow> cache_set_t" where
  "lines_of st addr = cache st ! set_of st addr"

text \<open>
  A geometry the program can run: the three parameters are positive (\<open>main\<close> rejects
  zero), \<open>S = 2 ^ s\<close> is representable in the \<open>int\<close> variable \<open>S\<close>, \<open>E\<close> is an
  \<open>int\<close>, and the shift \<open>s + b\<close> is narrower than the 64 bits of an address.
\<close>

definition valid_geometry :: "nat \<Rightarrow> nat \<Rightarrow> nat \<Rightarrow> bool" where
  "valid_geometry sv Ev bv \<longleftrightarrow>
     0 < sv \<and> 0 < Ev \<and> 0 < bv \<and> sv + bv < 64 \<and> sv \<le> 30 \<and> Ev < 2 ^ 31"

text \<open>No tag is held by two valid lines of one set.\<close>

definition unique_tags :: "csim \<Rightarrow> bool" where
  "unique_tags st \<longleftrightarrow>
     (\<forall>ls \<in> set (cache st). \<forall>i \<in> {..<length ls}. \<forall>j \<in> {..<length ls}.
        i \<noteq> j \<and> valid (ls ! i) \<and> valid (ls ! j) \<longrightarrow> tag (ls ! i) \<noteq> tag (ls ! j))"

text \<open>The address is cached: a valid line of its set holds its tag.\<close>

definition cached :: "csim \<Rightarrow> mem_addr_t \<Rightarrow> bool" where
  "cached st a \<longleftrightarrow>
     (\<exists>l \<in> set (take (glob_E st) (lines_of st a)). valid l \<and> tag l = tag_of st a)"

text \<open>The set of the address is full: all its lines are valid.\<close>

definition set_full :: "csim \<Rightarrow> mem_addr_t \<Rightarrow> bool" where
  "set_full st a \<longleftrightarrow> (\<forall>l \<in> set (take (glob_E st) (lines_of st a)). valid l)"

text \<open>
  Set \<open>k\<close> of a state holds exactly the tags \<open>seen\<close>, in its first \<open>card seen\<close>
  lines, and its other lines are invalid: the shape of a set that was empty and has
  only been filled since.
\<close>

definition prefix_filled :: "csim \<Rightarrow> nat \<Rightarrow> mem_addr_t set \<Rightarrow> bool" where
  "prefix_filled st k seen \<longleftrightarrow>
     k < length (cache st) \<and> finite seen \<and> card seen \<le> glob_E st \<and>
     (\<forall>i<glob_E st. valid (cache st ! k ! i) \<longleftrightarrow> i < card seen) \<and>
     (\<lambda>i. tag (cache st ! k ! i)) ` {..<card seen} = seen"

text \<open>
  The notion the claims about LRU replacement use, following their words and not
  the code: the position (counted from 1) of the most recent access to tag \<open>t\<close> in a
  history of accessed tags, 0 if the tag was never accessed.
\<close>

fun last_access_from :: "nat \<Rightarrow> mem_addr_t list \<Rightarrow> mem_addr_t \<Rightarrow> nat \<Rightarrow> nat" where
  "last_access_from i [] t r = r"
| "last_access_from i (x # xs) t r = last_access_from (Suc i) xs t (if x = t then i else r)"

definition last_access_spec :: "mem_addr_t list \<Rightarrow> mem_addr_t \<Rightarrow> nat" where
  "last_access_spec h t = last_access_from 1 h t 0"

text \<open>
  States of a run with \<open>s = 1\<close>, \<open>E = 2\<close>, \<open>b = 1\<close> (two sets of two lines; the
  addresses 0, 4, 8 have the tags 0, 1, 2 and all map to set 0): the state
  \<open>init_cache\<close> builds, and the states after the accesses \<open>[0]\<close>, \<open>[0, 0]\<close> and
  \<open>[0, 0, 4]\<close>.
\<close>

definition st_fresh :: csim where
  "st_fresh =
     \<lparr>glob_b = 1, glob_s = 1, glob_E = 2, glob_S = 2, hit_cnt = 0, miss_cnt = 0, evict_cnt = 0,
      cache = [[empty_line, empty_line], [empty_line, empty_line]], lru_count = 0\<rparr>"

definition st_one :: csim where
  "st_one = st_fresh\<lparr>miss_cnt := 1,
      cache := [[\<lparr>valid = True, tag = 0, lru = 0\<rparr>, empty_line], [empty_line, empty_line]]\<rparr>"

definition st_two :: csim where
  "st_two = st_one\<lparr>hit_cnt := 1, lru_count := 1\<rparr>"

definition st_three :: csim where
  "st_three = st_two\<lparr>miss_cnt := 2,
      cache := [[\<lparr>valid = True, tag = 0, lru = 0\<rparr>, \<lparr>valid = True, tag = 1, lru = 1\<rparr>],
                [empty_line, empty_line]]\<rparr>"

section \<open>The three scans\<close>

lemma pow2_loop_eq: "pow2_loop n acc = acc * 2 ^ n"
  by (induction n arbitrary: acc) (simp_all add: mult.assoc)

lemma hit_loop_Some:
  "hit_loop ls tg En i = Some j \<Longrightarrow>
     i \<le> j \<and> j < En \<and> tag (ls ! j) = tg \<and> valid (ls ! j) \<and>
     (\<forall>k. i \<le> k \<and> k < j \<longrightarrow> \<not> (tag (ls ! k) = tg \<and> valid (ls ! k)))"
proof (induction ls tg En i rule: hit_loop.induct)
  case (1 ls tg En i)
  show ?case
  proof (cases "i < En \<and> \<not> (tag (ls ! i) = tg \<and> valid (ls ! i))")
    case True
    then have "hit_loop ls tg En (Suc i) = Some j"
      using "1.prems" by (subst (asm) hit_loop.simps) auto
    with True "1.IH" have IH: "Suc i \<le> j \<and> j < En \<and> tag (ls ! j) = tg \<and> valid (ls ! j) \<and>
        (\<forall>k. Suc i \<le> k \<and> k < j \<longrightarrow> \<not> (tag (ls ! k) = tg \<and> valid (ls ! k)))"
      by blast
    have "\<not> (tag (ls ! k) = tg \<and> valid (ls ! k))" if "i \<le> k" "k < j" for k
      using that True IH by (cases "k = i") auto
    with IH show ?thesis by auto
  next
    case False
    then show ?thesis
      using "1.prems" by (subst (asm) hit_loop.simps) (auto split: if_splits)
  qed
qed

lemma hit_loop_None:
  "hit_loop ls tg En i = None \<longleftrightarrow>
     (\<forall>k. i \<le> k \<and> k < En \<longrightarrow> \<not> (tag (ls ! k) = tg \<and> valid (ls ! k)))"
proof (induction ls tg En i rule: hit_loop.induct)
  case (1 ls tg En i)
  show ?case
  proof (cases "i < En \<and> \<not> (tag (ls ! i) = tg \<and> valid (ls ! i))")
    case True
    then have eq: "hit_loop ls tg En i = hit_loop ls tg En (Suc i)"
      by (subst hit_loop.simps) auto
    have "(\<forall>k. i \<le> k \<and> k < En \<longrightarrow> \<not> (tag (ls ! k) = tg \<and> valid (ls ! k))) \<longleftrightarrow>
          (\<forall>k. Suc i \<le> k \<and> k < En \<longrightarrow> \<not> (tag (ls ! k) = tg \<and> valid (ls ! k)))"
      using True by (metis Suc_leI le_neq_implies_less Suc_leD)
    with True "1.IH" eq show ?thesis by simp
  next
    case False
    then show ?thesis
      by (subst hit_loop.simps) auto
  qed
qed

lemma fill_loop_Some:
  "fill_loop ls En i = Some j \<Longrightarrow>
     i \<le> j \<and> j < En \<and> \<not> valid (ls ! j) \<and> (\<forall>k. i \<le> k \<and> k < j \<longrightarrow> valid (ls ! k))"
proof (induction ls En i rule: fill_loop.induct)
  case (1 ls En i)
  show ?case
  proof (cases "i < En \<and> valid (ls ! i)")
    case True
    then have "fill_loop ls En (Suc i) = Some j"
      using "1.prems" by (subst (asm) fill_loop.simps) simp
    with True "1.IH" have IH: "Suc i \<le> j \<and> j < En \<and> \<not> valid (ls ! j) \<and>
        (\<forall>k. Suc i \<le> k \<and> k < j \<longrightarrow> valid (ls ! k))"
      by blast
    have "valid (ls ! k)" if "i \<le> k" "k < j" for k
      using that True IH by (cases "k = i") auto
    with IH show ?thesis by auto
  next
    case False
    then show ?thesis
      using "1.prems" by (subst (asm) fill_loop.simps) (auto split: if_splits)
  qed
qed

lemma fill_loop_None:
  "fill_loop ls En i = None \<longleftrightarrow> (\<forall>k. i \<le> k \<and> k < En \<longrightarrow> valid (ls ! k))"
proof (induction ls En i rule: fill_loop.induct)
  case (1 ls En i)
  show ?case
  proof (cases "i < En \<and> valid (ls ! i)")
    case True
    then have eq: "fill_loop ls En i = fill_loop ls En (Suc i)"
      by (subst fill_loop.simps) simp
    have "(\<forall>k. i \<le> k \<and> k < En \<longrightarrow> valid (ls ! k)) \<longleftrightarrow>
          (\<forall>k. Suc i \<le> k \<and> k < En \<longrightarrow> valid (ls ! k))"
      using True by (metis Suc_leI le_neq_implies_less Suc_leD)
    with True "1.IH" eq show ?thesis by simp
  next
    case False
    then show ?thesis
      by (subst fill_loop.simps) auto
  qed
qed

lemma evict_loop_range:
  "evict_loop ls En i line = line \<or> (i \<le> evict_loop ls En i line \<and> evict_loop ls En i line < En)"
proof (induction ls En i line rule: evict_loop.induct)
  case (1 ls En i line)
  show ?case
  proof (cases "i < En")
    case True
    let ?l = "if sint (lru (ls ! i)) < sint (lru (ls ! line)) then i else line"
    have eq: "evict_loop ls En i line = evict_loop ls En (Suc i) ?l"
      using True by (subst evict_loop.simps) simp
    from "1.IH" [OF True] have "evict_loop ls En (Suc i) ?l = ?l \<or>
       (Suc i \<le> evict_loop ls En (Suc i) ?l \<and> evict_loop ls En (Suc i) ?l < En)" .
    then show ?thesis unfolding eq using True by (auto split: if_splits)
  next
    case False
    then show ?thesis by (subst evict_loop.simps) simp
  qed
qed

lemma evict_loop_min:
  assumes "\<forall>k<i. sint (lru (ls ! line)) \<le> sint (lru (ls ! k))"
    and "\<forall>k<line. sint (lru (ls ! line)) < sint (lru (ls ! k))"
    and "line \<le> i"
  shows "(\<forall>k<max i En. sint (lru (ls ! evict_loop ls En i line)) \<le> sint (lru (ls ! k))) \<and>
         (\<forall>k<evict_loop ls En i line. sint (lru (ls ! evict_loop ls En i line)) < sint (lru (ls ! k)))"
  using assms
proof (induction ls En i line rule: evict_loop.induct)
  case (1 ls En i line)
  show ?case
  proof (cases "i < En")
    case True
    let ?l = "if sint (lru (ls ! i)) < sint (lru (ls ! line)) then i else line"
    have eq: "evict_loop ls En i line = evict_loop ls En (Suc i) ?l"
      using True by (subst evict_loop.simps) simp
    have a: "\<forall>k<Suc i. sint (lru (ls ! ?l)) \<le> sint (lru (ls ! k))"
      using "1.prems"(1) by (auto simp: less_Suc_eq)
    have b: "\<forall>k<?l. sint (lru (ls ! ?l)) < sint (lru (ls ! k))"
      using "1.prems" by (auto simp: less_Suc_eq) 
    have c: "?l \<le> Suc i" using "1.prems"(3) by auto
    from "1.IH" [OF True a b c] show ?thesis
      unfolding eq using True by (simp add: max_def split: if_splits)
  next
    case False
    then have "evict_loop ls En i line = line" by (subst evict_loop.simps) simp
    with False "1.prems" show ?thesis by (simp add: max_def)
  qed
qed

section \<open>Address decomposition\<close>

lemma low_bits: "(a :: 64 word) - push_bit n (drop_bit n a) = take_bit n a"
proof -
  have "push_bit n (drop_bit n a) + take_bit n a = a"
    by (rule bits_ident)
  then show ?thesis
    by (metis add_diff_cancel_left')
qed

lemma currSet_take_bit:
  "currSet sv bv a = sint (ucast (take_bit sv (drop_bit bv a)) :: 32 word)"
  by (simp add: currSet_def addr_tag_def low_bits drop_bit_take_bit)

lemma sint_ucast_small:
  fixes w :: "64 word"
  assumes "uint w < 2 ^ 31"
  shows "sint (ucast w :: 32 word) = uint w"
proof -
  have "uint w < 2 ^ 32" using assms by simp
  then have u: "uint (ucast w :: 32 word) = uint w"
    by (simp add: unsigned_ucast_eq take_bit_int_eq_self)
  have "sint (ucast w :: 32 word) = signed_take_bit 31 (uint (ucast w :: 32 word))"
    by (simp add: sint_uint)
  also have "\<dots> = uint w"
  proof -
    have "- (2 ^ 31) \<le> uint w" by (rule order_trans [of _ 0]) simp_all
    then show ?thesis
      unfolding u using assms by (intro signed_take_bit_int_eq_self) simp_all
  qed
  finally show ?thesis .
qed

lemma uint_take_bit_less:
  fixes w :: "64 word"
  shows "uint (take_bit n w) < 2 ^ n"
  by (simp add: unsigned_take_bit_eq)

lemma currSet_uint:
  assumes "sv \<le> 31"
  shows "currSet sv bv a = uint (take_bit sv (drop_bit bv a))"
proof -
  have "uint (take_bit sv (drop_bit bv a)) < 2 ^ sv"
    by (rule uint_take_bit_less)
  also have "(2::int) ^ sv \<le> 2 ^ 31"
    using assms by (intro power_increasing) simp_all
  finally show ?thesis
    by (simp add: currSet_take_bit sint_ucast_small)
qed

lemma currSet_range:
  assumes "sv \<le> 31"
  shows "0 \<le> currSet sv bv a \<and> currSet sv bv a < 2 ^ sv"
  using uint_take_bit_less [of sv "drop_bit bv a"] by (simp add: currSet_uint [OF assms])

lemma currSet_mask:
  assumes "sv \<le> 31"
  shows "currSet sv bv a = uint (drop_bit bv a AND (2 ^ sv - 1))"
  by (simp add: currSet_uint [OF assms] take_bit_eq_mask mask_eq_exp_minus_1)

section \<open>The paths of access_data\<close>

lemma wf_set_of:
  assumes "wf_cache st"
  shows "0 \<le> currSet (glob_s st) (glob_b st) a"
    and "set_of st a < length (cache st)"
    and "length (lines_of st a) = glob_E st"
proof -
  have s31: "glob_s st \<le> 31" using assms by (simp add: wf_cache_def)
  from currSet_range [OF s31, of "glob_b st" a]
  show nonneg: "0 \<le> currSet (glob_s st) (glob_b st) a" by simp
  from currSet_range [OF s31, of "glob_b st" a]
  have "nat (currSet (glob_s st) (glob_b st) a) < 2 ^ glob_s st"
    by (simp add: nat_less_iff)
  then show lt: "set_of st a < length (cache st)"
    using assms by (simp add: wf_cache_def set_of_def)
  then have "lines_of st a \<in> set (cache st)"
    by (simp add: lines_of_def)
  then show "length (lines_of st a) = glob_E st"
    using assms by (simp add: wf_cache_def lines_ok_def)
qed

lemma access_data_unfold:
  assumes "wf_cache st"
  shows "access_data a st =
     (case hit_loop (lines_of st a) (tag_of st a) (glob_E st) 0 of
        Some i \<Rightarrow>
          Inr (st\<lparr>cache := (cache st)[set_of st a :=
                    (lines_of st a)[i := (lines_of st a ! i)\<lparr>lru := lru_count st\<rparr>]],
                  hit_cnt := hit_cnt st + 1,
                  lru_count := lru_count st + 1\<rparr>)
      | None \<Rightarrow>
          (case fill_loop (lines_of st a) (glob_E st) 0 of
             Some i \<Rightarrow>
               Inr (st\<lparr>miss_cnt := miss_cnt st + 1,
                       cache := (cache st)[set_of st a := (lines_of st a)[i := (lines_of st a ! i)
                         \<lparr>lru := lru_count st, valid := True, tag := tag_of st a\<rparr>]]\<rparr>)
           | None \<Rightarrow>
               Inr (st\<lparr>miss_cnt := miss_cnt st + 1,
                       evict_cnt := evict_cnt st + 1,
                       cache := (cache st)[set_of st a :=
                         (lines_of st a)[evict_loop (lines_of st a) (glob_E st) 0 0 :=
                           (lines_of st a ! evict_loop (lines_of st a) (glob_E st) 0 0)
                             \<lparr>lru := lru_count st, tag := tag_of st a\<rparr>]]\<rparr>)))"
proof -
  have g1: "\<not> 64 \<le> glob_s st + glob_b st" and E: "0 < glob_E st"
    using assms by (simp_all add: wf_cache_def)
  have g2: "\<not> (currSet (glob_s st) (glob_b st) a < 0 \<or>
        int (length (cache st)) \<le> currSet (glob_s st) (glob_b st) a)"
    using wf_set_of(1,2) [OF assms, of a] by (simp add: set_of_def)
  have g3: "\<not> length (cache st ! nat (currSet (glob_s st) (glob_b st) a)) < max 1 (glob_E st)"
    using wf_set_of(3) [OF assms, of a] E by (simp add: lines_of_def set_of_def)
  show ?thesis
    unfolding access_data_def Let_def lines_of_def set_of_def tag_of_def
    using g1 g2 g3 by simp
qed

lemma access_data_hit:
  assumes "wf_cache st" and "hit_loop (lines_of st a) (tag_of st a) (glob_E st) 0 = Some i"
  shows "access_data a st =
          Inr (st\<lparr>cache := (cache st)[set_of st a :=
                    (lines_of st a)[i := (lines_of st a ! i)\<lparr>lru := lru_count st\<rparr>]],
                  hit_cnt := hit_cnt st + 1,
                  lru_count := lru_count st + 1\<rparr>)"
  using assms(2) by (simp add: access_data_unfold [OF assms(1)])

lemma access_data_fill:
  assumes "wf_cache st" and "hit_loop (lines_of st a) (tag_of st a) (glob_E st) 0 = None"
    and "fill_loop (lines_of st a) (glob_E st) 0 = Some i"
  shows "access_data a st =
           Inr (st\<lparr>miss_cnt := miss_cnt st + 1,
                   cache := (cache st)[set_of st a := (lines_of st a)[i := (lines_of st a ! i)
                         \<lparr>lru := lru_count st, valid := True, tag := tag_of st a\<rparr>]]\<rparr>)"
  using assms(2,3) by (simp add: access_data_unfold [OF assms(1)])

lemma access_data_evict:
  assumes "wf_cache st" and "hit_loop (lines_of st a) (tag_of st a) (glob_E st) 0 = None"
    and "fill_loop (lines_of st a) (glob_E st) 0 = None"
  shows "access_data a st =
               Inr (st\<lparr>miss_cnt := miss_cnt st + 1,
                       evict_cnt := evict_cnt st + 1,
                       cache := (cache st)[set_of st a :=
                         (lines_of st a)[evict_loop (lines_of st a) (glob_E st) 0 0 :=
                           (lines_of st a ! evict_loop (lines_of st a) (glob_E st) 0 0)
                             \<lparr>lru := lru_count st, tag := tag_of st a\<rparr>]]\<rparr>)"
  using assms(2,3) by (simp add: access_data_unfold [OF assms(1)])

lemma access_data_total:
  assumes "wf_cache st"
  shows "\<exists>st'. access_data a st = Inr st'"
  by (simp add: access_data_unfold [OF assms] split: option.splits)

lemma access_data_globals:
  assumes "access_data a st = Inr st'"
  shows "glob_s st' = glob_s st \<and> glob_b st' = glob_b st \<and> glob_E st' = glob_E st \<and>
         glob_S st' = glob_S st \<and> length (cache st') = length (cache st)"
  using assms unfolding access_data_def Let_def
  by (auto split: if_splits option.splits)

lemma lines_ok_update:
  assumes "lines_ok st" and "k < length (cache st)"
  shows "lines_ok (st\<lparr>cache := (cache st)[k := (cache st ! k)[i := x]]\<rparr>)"
  unfolding lines_ok_def
proof
  fix ls assume "ls \<in> set (cache (st\<lparr>cache := (cache st)[k := (cache st ! k)[i := x]]\<rparr>))"
  then have "ls \<in> insert ((cache st ! k)[i := x]) (set (cache st))"
    using set_update_subset_insert by fastforce
  then show "length ls = glob_E (st\<lparr>cache := (cache st)[k := (cache st ! k)[i := x]]\<rparr>)"
    using assms by (auto simp: lines_ok_def)
qed

lemma access_data_wf:
  assumes "access_data a st = Inr st'" and "wf_cache st"
  shows "wf_cache st'"
proof -
  have k: "set_of st a < length (cache st)" by (rule wf_set_of(2) [OF assms(2)])
  have ok: "lines_ok st" using assms(2) by (simp add: wf_cache_def)
  have l: "lines_ok (st\<lparr>cache := (cache st)[set_of st a := (lines_of st a)[i := x]]\<rparr>)" for i x
    using lines_ok_update [OF ok k] by (simp add: lines_of_def)
  have "lines_ok st'"
    using assms(1) l unfolding access_data_unfold [OF assms(2)]
    by (auto split: option.splits simp: lines_ok_def)
  then show ?thesis
    using access_data_globals [OF assms(1)] assms(2) by (simp add: wf_cache_def)
qed

lemma access_data_Inr_touch:
  assumes r: "access_data a st = Inr st'" and E: "0 < glob_E st"
  shows "\<exists>i<glob_E st. cache st' = (cache st)[set_of st a :=
           (lines_of st a)[i := \<lparr>valid = True, tag = tag_of st a, lru = lru_count st\<rparr>]]"
proof -
  let ?ls = "lines_of st a" and ?tg = "tag_of st a" and ?E = "glob_E st"
  from r have g1: "\<not> 64 \<le> glob_s st + glob_b st"
    and g2: "\<not> (currSet (glob_s st) (glob_b st) a < 0 \<or>
        int (length (cache st)) \<le> currSet (glob_s st) (glob_b st) a)"
    and g3: "\<not> length (cache st ! nat (currSet (glob_s st) (glob_b st) a)) < max 1 (glob_E st)"
    unfolding access_data_def Let_def by (auto split: if_splits)
  have u: "access_data a st =
     (case hit_loop ?ls ?tg ?E 0 of
        Some i \<Rightarrow>
          Inr (st\<lparr>cache := (cache st)[set_of st a := ?ls[i := (?ls ! i)\<lparr>lru := lru_count st\<rparr>]],
                  hit_cnt := hit_cnt st + 1,
                  lru_count := lru_count st + 1\<rparr>)
      | None \<Rightarrow>
          (case fill_loop ?ls ?E 0 of
             Some i \<Rightarrow>
               Inr (st\<lparr>miss_cnt := miss_cnt st + 1,
                       cache := (cache st)[set_of st a := ?ls[i := (?ls ! i)
                         \<lparr>lru := lru_count st, valid := True, tag := ?tg\<rparr>]]\<rparr>)
           | None \<Rightarrow>
               Inr (st\<lparr>miss_cnt := miss_cnt st + 1,
                       evict_cnt := evict_cnt st + 1,
                       cache := (cache st)[set_of st a :=
                         ?ls[evict_loop ?ls ?E 0 0 :=
                           (?ls ! evict_loop ?ls ?E 0 0)
                             \<lparr>lru := lru_count st, tag := ?tg\<rparr>]]\<rparr>)))"
    unfolding access_data_def Let_def lines_of_def set_of_def tag_of_def
    using g1 g2 g3 by simp
  show ?thesis
  proof (cases "hit_loop ?ls ?tg ?E 0")
    case (Some i)
    from hit_loop_Some [OF Some]
    have "(?ls ! i)\<lparr>lru := c\<rparr> = \<lparr>valid = True, tag = ?tg, lru = c\<rparr>" for c by simp
    with hit_loop_Some [OF Some] r Some show ?thesis unfolding u by auto
  next
    case None
    show ?thesis
    proof (cases "fill_loop ?ls ?E 0")
      case (Some i)
      have "(l :: cache_line)\<lparr>lru := c, valid := True, tag := t\<rparr> = \<lparr>valid = True, tag = t, lru = c\<rparr>"
        for l c t by simp
      with fill_loop_Some [OF Some] r None Some show ?thesis unfolding u by auto
    next
      case n: None
      let ?r = "evict_loop ?ls ?E 0 0"
      have rr: "?r < ?E" using evict_loop_range [of ?ls ?E 0 0] E by auto
      have "valid (?ls ! ?r)" using n rr by (simp add: fill_loop_None)
      then have "(?ls ! ?r)\<lparr>lru := c, tag := t\<rparr> = \<lparr>valid = True, tag = t, lru = c\<rparr>" for c t
        by simp
      with r None n rr show ?thesis unfolding u by auto
    qed
  qed
qed

lemma access_data_same_decomposition:
  assumes "addr_tag (glob_s st) (glob_b st) a1 = addr_tag (glob_s st) (glob_b st) a2"
    and "currSet (glob_s st) (glob_b st) a1 = currSet (glob_s st) (glob_b st) a2"
  shows "access_data a1 st = access_data a2 st"
  unfolding access_data_def using assms by simp

section \<open>init_cache and sequences of accesses\<close>

lemma sint_pow2:
  assumes "n \<le> 30"
  shows "sint (2 ^ n :: 32 word) = 2 ^ n"
proof -
  have lt: "(2::int) ^ n < 2 ^ 31"
    using assms by (intro power_strict_increasing) simp_all
  have "- (2 ^ 31) \<le> (2::int) ^ n"
    by (rule order_trans [of _ 0]) simp_all
  then have "signed_take_bit 31 ((2::int) ^ n) = 2 ^ n"
    using lt by (intro signed_take_bit_int_eq_self) simp_all
  moreover have "sint (word_of_int (2 ^ n) :: 32 word) = signed_take_bit 31 ((2::int) ^ n)"
    by (subst signed_of_int) simp
  ultimately show ?thesis by (simp only: word_of_int_2p)
qed

lemma init_cache_wf:
  assumes "sv \<le> 30" and "sv + bv < 64" and "0 < Ev"
    and "init_cache heap_ok (globals0 sv Ev bv) = Inr st0"
  shows "wf_cache st0"
    and "glob_s st0 = sv \<and> glob_E st0 = Ev \<and> glob_b st0 = bv"
    and "hit_cnt st0 = 0 \<and> miss_cnt st0 = 0 \<and> evict_cnt st0 = 0 \<and> lru_count st0 = 0"
    and "cache st0 = replicate (2 ^ sv) (replicate Ev empty_line)"
proof -
  have S: "sint (pow2_loop sv 1) = 2 ^ sv"
    using sint_pow2 [OF assms(1)] by (simp add: pow2_loop_eq)
  have m: "map (\<lambda>i. x) [0..<n] = replicate n x" for x :: 'a and n
    by (simp add: map_replicate_const)
  have st0: "st0 = (globals0 sv Ev bv)\<lparr>glob_S := pow2_loop sv 1,
               cache := replicate (2 ^ sv) (replicate Ev empty_line)\<rparr>"
    using assms(4) S unfolding init_cache_def Let_def
    by (auto simp: globals0_def m nat_power_eq split: if_splits)
  show "glob_s st0 = sv \<and> glob_E st0 = Ev \<and> glob_b st0 = bv"
    and "hit_cnt st0 = 0 \<and> miss_cnt st0 = 0 \<and> evict_cnt st0 = 0 \<and> lru_count st0 = 0"
    and "cache st0 = replicate (2 ^ sv) (replicate Ev empty_line)"
    by (simp_all add: st0 globals0_def)
  show "wf_cache st0"
    using assms(1-3) by (simp add: st0 globals0_def wf_cache_def lines_ok_def)
qed

lemma access_seq_total:
  assumes "wf_cache st"
  shows "\<exists>st'. access_seq as st = Inr st' \<and> wf_cache st'"
  using assms
proof (induction as arbitrary: st)
  case Nil
  then show ?case by simp
next
  case (Cons a as)
  from access_data_total [OF Cons.prems] obtain st1 where 1: "access_data a st = Inr st1"
    by blast
  then have "wf_cache st1" using Cons.prems by (rule access_data_wf)
  from Cons.IH [OF this] show ?case using 1 by simp
qed

lemma access_seq_globals:
  assumes "access_seq as st = Inr st'"
  shows "glob_s st' = glob_s st \<and> glob_b st' = glob_b st \<and> glob_E st' = glob_E st"
  using assms
proof (induction as arbitrary: st)
  case Nil
  then show ?case by simp
next
  case (Cons a as)
  then obtain st1 where 1: "access_data a st = Inr st1" and 2: "access_seq as st1 = Inr st'"
    by (auto split: sum.splits)
  from Cons.IH [OF 2] access_data_globals [OF 1] show ?case by simp
qed

section \<open>Cached addresses and full sets\<close>

lemma take_all_nth:
  assumes "length ls = n"
  shows "(\<exists>l \<in> set (take n ls). P l) \<longleftrightarrow> (\<exists>k<n. P (ls ! k))"
    and "(\<forall>l \<in> set (take n ls). P l) \<longleftrightarrow> (\<forall>k<n. P (ls ! k))"
  using assms by (auto simp: in_set_conv_nth intro: nth_mem)

lemma cached_iff:
  assumes "wf_cache st"
  shows "cached st a \<longleftrightarrow>
         (\<exists>k<glob_E st. valid (lines_of st a ! k) \<and> tag (lines_of st a ! k) = tag_of st a)"
  unfolding cached_def by (rule take_all_nth(1) [OF wf_set_of(3) [OF assms]])

lemma set_full_iff:
  assumes "wf_cache st"
  shows "set_full st a \<longleftrightarrow> (\<forall>k<glob_E st. valid (lines_of st a ! k))"
  unfolding set_full_def by (rule take_all_nth(2) [OF wf_set_of(3) [OF assms]])

lemma cached_hit_loop:
  assumes "wf_cache st"
  shows "cached st a \<longleftrightarrow> hit_loop (lines_of st a) (tag_of st a) (glob_E st) 0 \<noteq> None"
  unfolding cached_iff [OF assms] hit_loop_None by auto

lemma set_full_fill_loop:
  assumes "wf_cache st"
  shows "set_full st a \<longleftrightarrow> fill_loop (lines_of st a) (glob_E st) 0 = None"
  unfolding set_full_iff [OF assms] fill_loop_None by auto

lemma access_data_touch:
  assumes "wf_cache st"
  shows "\<exists>i st'. access_data a st = Inr st' \<and> i < glob_E st \<and>
           cache st' = (cache st)[set_of st a :=
              (lines_of st a)[i := \<lparr>valid = True, tag = tag_of st a, lru = lru_count st\<rparr>]]"
proof (cases "cached st a")
  case True
  from assms True obtain i where i: "hit_loop (lines_of st a) (tag_of st a) (glob_E st) 0 = Some i"
    by (auto simp: cached_hit_loop)
  from hit_loop_Some [OF i]
  have "(lines_of st a ! i)\<lparr>lru := c\<rparr> = \<lparr>valid = True, tag = tag_of st a, lru = c\<rparr>" for c
    by simp
  with hit_loop_Some [OF i] access_data_hit [OF assms i] show ?thesis by auto
next
  case False
  then have h: "hit_loop (lines_of st a) (tag_of st a) (glob_E st) 0 = None"
    using assms by (simp add: cached_hit_loop)
  show ?thesis
  proof (cases "fill_loop (lines_of st a) (glob_E st) 0")
    case (Some i)
    have "(l :: cache_line)\<lparr>lru := c, valid := True, tag := t\<rparr> = \<lparr>valid = True, tag = t, lru = c\<rparr>"
      for l c t by simp
    with fill_loop_Some [OF Some] access_data_fill [OF assms h Some]
    show ?thesis by auto
  next
    case None
    let ?ls = "lines_of st a" and ?E = "glob_E st"
    let ?r = "evict_loop ?ls ?E 0 0"
    have E: "0 < ?E" using assms by (simp add: wf_cache_def)
    have r: "?r < ?E" using evict_loop_range [of ?ls ?E 0 0] E by auto
    have "valid (?ls ! ?r)" using None r by (simp add: fill_loop_None)
    then have "(?ls ! ?r)\<lparr>lru := c, tag := t\<rparr> = \<lparr>valid = True, tag = t, lru = c\<rparr>" for c t
      by simp
    with access_data_evict [OF assms h None] r show ?thesis by auto
  qed
qed

lemma access_data_hit_clock:
  assumes "wf_cache st" and "cached st a" and "access_data a st = Inr st'"
  shows "lru_count st' = lru_count st + 1"
proof -
  from assms(1,2) obtain i where i: "hit_loop (lines_of st a) (tag_of st a) (glob_E st) 0 = Some i"
    by (auto simp: cached_hit_loop)
  from access_data_hit [OF assms(1) i] assms(3) show ?thesis by auto
qed

lemma access_data_touch2:
  assumes "wf_cache st"
  shows "\<exists>i st'. access_data a st = Inr st' \<and> i < glob_E st \<and>
           cache st' = (cache st)[set_of st a :=
              (lines_of st a)[i := \<lparr>valid = True, tag = tag_of st a, lru = lru_count st\<rparr>]] \<and>
           (cached st a \<longrightarrow> valid (lines_of st a ! i) \<and> tag (lines_of st a ! i) = tag_of st a)"
proof (cases "cached st a")
  case True
  from assms True obtain i where i: "hit_loop (lines_of st a) (tag_of st a) (glob_E st) 0 = Some i"
    by (auto simp: cached_hit_loop)
  from hit_loop_Some [OF i]
  have "(lines_of st a ! i)\<lparr>lru := c\<rparr> = \<lparr>valid = True, tag = tag_of st a, lru = c\<rparr>" for c
    by simp
  with hit_loop_Some [OF i] access_data_hit [OF assms i] show ?thesis by auto
next
  case False
  with access_data_touch [OF assms, of a] show ?thesis by blast
qed

lemma access_data_same_set:
  assumes "access_data a st = Inr st'"
  shows "tag_of st' x = tag_of st x \<and> set_of st' x = set_of st x"
  using access_data_globals [OF assms] by (simp add: tag_of_def set_of_def)

lemma access_data_cached_after:
  assumes "wf_cache st" and "access_data a st = Inr st'"
  shows "cached st' a"
proof -
  from access_data_touch [OF assms(1), of a] assms(2) obtain i where
    i: "i < glob_E st" and c: "cache st' = (cache st)[set_of st a :=
       (lines_of st a)[i := \<lparr>valid = True, tag = tag_of st a, lru = lru_count st\<rparr>]]"
    by auto
  have wf': "wf_cache st'" using assms(2,1) by (rule access_data_wf)
  have E: "glob_E st' = glob_E st" using access_data_globals [OF assms(2)] by simp
  have "lines_of st' a = (lines_of st a)[i := \<lparr>valid = True, tag = tag_of st a, lru = lru_count st\<rparr>]"
    using wf_set_of(2) [OF assms(1), of a] access_data_same_set [OF assms(2), of a]
    by (simp add: lines_of_def c)
  then have "valid (lines_of st' a ! i) \<and> tag (lines_of st' a ! i) = tag_of st' a"
    using i wf_set_of(3) [OF assms(1), of a] access_data_same_set [OF assms(2), of a] by simp
  then show ?thesis using i E by (auto simp: cached_iff [OF wf'])
qed

lemma access_data_hit_counters:
  assumes "wf_cache st" and "cached st a" and "access_data a st = Inr st'"
  shows "hit_cnt st' = hit_cnt st + 1 \<and> miss_cnt st' = miss_cnt st \<and> evict_cnt st' = evict_cnt st"
proof -
  from assms(1,2) obtain i where i: "hit_loop (lines_of st a) (tag_of st a) (glob_E st) 0 = Some i"
    by (auto simp: cached_hit_loop)
  from access_data_hit [OF assms(1) i] assms(3) show ?thesis by auto
qed

lemma access_data_miss_counters:
  assumes "wf_cache st" and "\<not> cached st a" and "access_data a st = Inr st'"
  shows "hit_cnt st' = hit_cnt st \<and> miss_cnt st' = miss_cnt st + 1 \<and>
         evict_cnt st' = evict_cnt st + (if set_full st a then 1 else 0)"
proof -
  have h: "hit_loop (lines_of st a) (tag_of st a) (glob_E st) 0 = None"
    using assms(1,2) by (simp add: cached_hit_loop)
  show ?thesis
  proof (cases "set_full st a")
    case True
    then have f: "fill_loop (lines_of st a) (glob_E st) 0 = None"
      using assms(1) by (simp add: set_full_fill_loop)
    from access_data_evict [OF assms(1) h f] assms(3) True show ?thesis by auto
  next
    case False
    then obtain i where f: "fill_loop (lines_of st a) (glob_E st) 0 = Some i"
      using assms(1) by (auto simp: set_full_fill_loop)
    from access_data_fill [OF assms(1) h f] assms(3) False show ?thesis by auto
  qed
qed

section \<open>Unique tags\<close>

lemma unique_lines_update:
  fixes ls :: cache_set_t
  assumes u: "\<forall>i<length ls. \<forall>j<length ls.
                i \<noteq> j \<and> valid (ls ! i) \<and> valid (ls ! j) \<longrightarrow> tag (ls ! i) \<noteq> tag (ls ! j)"
    and o: "\<forall>j<length ls. j \<noteq> i \<and> valid (ls ! j) \<longrightarrow> tag (ls ! j) \<noteq> tag x"
  shows "\<forall>p<length (ls[i := x]). \<forall>q<length (ls[i := x]).
           p \<noteq> q \<and> valid (ls[i := x] ! p) \<and> valid (ls[i := x] ! q)
           \<longrightarrow> tag (ls[i := x] ! p) \<noteq> tag (ls[i := x] ! q)"
proof (intro allI impI)
  fix p q
  assume p: "p < length (ls[i := x])" and q: "q < length (ls[i := x])"
    and h: "p \<noteq> q \<and> valid (ls[i := x] ! p) \<and> valid (ls[i := x] ! q)"
  show "tag (ls[i := x] ! p) \<noteq> tag (ls[i := x] ! q)"
  proof (cases "p = i")
    case True
    then have "q \<noteq> i" using h by simp
    with True p q h o show ?thesis by (auto simp: nth_list_update)
  next
    case False
    show ?thesis
    proof (cases "q = i")
      case True
      with False p q h o show ?thesis by (auto simp: nth_list_update)
    next
      case qi: False
      with False p q h u show ?thesis by (auto simp: nth_list_update)
    qed
  qed
qed

lemma unique_tags_step:
  assumes wf: "wf_cache st" and u: "unique_tags st" and a: "access_data a st = Inr st'"
  shows "unique_tags st'"
proof -
  let ?ls = "lines_of st a" and ?tg = "tag_of st a" and ?E = "glob_E st"
  from access_data_touch2 [OF wf, of a] a obtain i where
    i: "i < ?E" and c: "cache st' = (cache st)[set_of st a :=
       ?ls[i := \<lparr>valid = True, tag = ?tg, lru = lru_count st\<rparr>]]"
    and h: "cached st a \<longrightarrow> valid (?ls ! i) \<and> tag (?ls ! i) = ?tg"
    by auto
  let ?x = "\<lparr>valid = True, tag = ?tg, lru = lru_count st\<rparr>"
  have len: "length ?ls = ?E" by (rule wf_set_of(3) [OF wf])
  have mem: "?ls \<in> set (cache st)"
    using wf_set_of(2) [OF wf, of a] by (simp add: lines_of_def)
  have uls: "\<forall>i<length ?ls. \<forall>j<length ?ls.
                i \<noteq> j \<and> valid (?ls ! i) \<and> valid (?ls ! j) \<longrightarrow> tag (?ls ! i) \<noteq> tag (?ls ! j)"
    using u mem by (simp add: unique_tags_def)
  have o: "\<forall>j<length ?ls. j \<noteq> i \<and> valid (?ls ! j) \<longrightarrow> tag (?ls ! j) \<noteq> tag ?x"
  proof (cases "cached st a")
    case True
    show ?thesis
    proof (intro allI impI)
      fix j assume j: "j < length ?ls" and jj: "j \<noteq> i \<and> valid (?ls ! j)"
      from True h have hi: "valid (?ls ! i)" "tag (?ls ! i) = ?tg" by simp_all
      from uls [rule_format, of j i] j jj i len hi
      show "tag (?ls ! j) \<noteq> tag ?x" by simp
    qed
  next
    case False
    then show ?thesis using len by (auto simp: cached_iff [OF wf])
  qed
  note new = unique_lines_update [OF uls o]
  show ?thesis
    unfolding unique_tags_def
  proof
    fix ls assume "ls \<in> set (cache st')"
    then have "ls \<in> insert (?ls[i := ?x]) (set (cache st))"
      unfolding c using set_update_subset_insert by fastforce
    then show "\<forall>i\<in>{..<length ls}. \<forall>j\<in>{..<length ls}.
             i \<noteq> j \<and> valid (ls ! i) \<and> valid (ls ! j) \<longrightarrow> tag (ls ! i) \<noteq> tag (ls ! j)"
    proof
      assume "ls = ?ls[i := ?x]"
      with new show ?thesis by simp
    next
      assume "ls \<in> set (cache st)"
      with u show ?thesis by (simp add: unique_tags_def)
    qed
  qed
qed

lemma access_seq_unique:
  assumes "wf_cache st" and "unique_tags st" and "access_seq as st = Inr st'"
  shows "unique_tags st'"
  using assms
proof (induction as arbitrary: st)
  case Nil
  then show ?case by simp
next
  case (Cons a as)
  then obtain st1 where 1: "access_data a st = Inr st1" and 2: "access_seq as st1 = Inr st'"
    by (auto split: sum.splits)
  have "wf_cache st1" using 1 Cons.prems(1) by (rule access_data_wf)
  moreover have "unique_tags st1" using Cons.prems(1,2) 1 by (rule unique_tags_step)
  ultimately show ?case using 2 by (rule Cons.IH)
qed

lemma init_cache_cases:
  assumes "init_cache heap_ok (globals0 sv Ev bv) = Inr st0"
  shows "st0 = (globals0 sv Ev bv)\<lparr>glob_S := 2 ^ sv,
               cache := replicate (nat (sint (2 ^ sv :: 32 word))) (replicate Ev empty_line)\<rparr>"
proof -
  have m: "map (\<lambda>i. x) [0..<n] = replicate n x" for x :: 'a and n
    by (simp add: map_replicate_const)
  show ?thesis
    using assms unfolding init_cache_def Let_def
    by (auto simp: m pow2_loop_eq globals0_def split: if_splits)
qed

lemma init_unique_tags:
  assumes "init_cache heap_ok (globals0 sv Ev bv) = Inr st0"
  shows "unique_tags st0"
  unfolding init_cache_cases [OF assms] by (auto simp: unique_tags_def empty_line_def)

lemma sint_pow2_big:
  assumes "31 \<le> n"
  shows "sint (2 ^ n :: 32 word) \<le> 0"
proof (cases "n = 31")
  case True
  then show ?thesis by simp
next
  case False
  with assms have "32 \<le> n" by simp
  then have "(2 ^ n :: 32 word) = 0" by (simp add: exp_eq_zero_iff)
  then have "sint (2 ^ n :: 32 word) = sint (0 :: 32 word)" by (simp only:)
  then show ?thesis by simp
qed

lemma init_access_wf:
  assumes i: "init_cache heap_ok (globals0 sv Ev bv) = Inr st0"
    and a: "access_data a st0 = Inr st1"
  shows "wf_cache st0"
proof -
  note st0 = init_cache_cases [OF i]
  have g: "glob_s st0 = sv" "glob_b st0 = bv" "glob_E st0 = Ev"
    by (simp_all add: st0 globals0_def)
  have c: "cache st0 = replicate (nat (sint (2 ^ sv :: 32 word))) (replicate Ev empty_line)"
    by (simp add: st0)
  from a have sh: "sv + bv < 64"
    and cs: "0 \<le> currSet sv bv a" "currSet sv bv a < int (length (cache st0))"
    and ln: "max 1 Ev \<le> length (cache st0 ! nat (currSet sv bv a))"
    unfolding access_data_def Let_def g by (auto split: if_splits)
  from cs have pos: "0 < nat (sint (2 ^ sv :: 32 word))" by (simp add: c split: if_splits)
  have s30: "sv \<le> 30"
  proof (rule ccontr)
    assume "\<not> sv \<le> 30"
    then have "31 \<le> sv" by simp
    from sint_pow2_big [OF this] pos show False by simp
  qed
  have len: "length (cache st0) = 2 ^ sv"
    by (simp add: c sint_pow2 [OF s30] nat_power_eq)
  have "nat (currSet sv bv a) < length (cache st0)" using cs by simp
  then have "cache st0 ! nat (currSet sv bv a) = replicate Ev empty_line"
    unfolding c by simp
  with ln have E: "0 < Ev" by simp
  show ?thesis
    using s30 sh E len by (simp add: wf_cache_def g lines_ok_def c)
qed

section \<open>Filling one set\<close>

lemma prefix_filled_seen:
  assumes wf: "wf_cache st" and pf: "prefix_filled st (set_of st a) seen"
    and "in": "tag_of st a \<in> seen"
  shows "\<exists>st'. access_data a st = Inr st' \<and> prefix_filled st' (set_of st a) seen \<and>
           evict_cnt st' = evict_cnt st \<and> miss_cnt st' = miss_cnt st"
proof -
  let ?ls = "lines_of st a" and ?tg = "tag_of st a" and ?E = "glob_E st" and ?n = "card seen"
  let ?k = "set_of st a"
  have ls: "cache st ! ?k = ?ls" by (simp add: lines_of_def)
  have len: "length ?ls = ?E" by (rule wf_set_of(3) [OF wf])
  from pf have kl: "?k < length (cache st)" and nE: "?n \<le> ?E"
    and v: "\<forall>i<?E. valid (?ls ! i) \<longleftrightarrow> i < ?n"
    and img: "(\<lambda>i. tag (?ls ! i)) ` {..<?n} = seen"
    by (simp_all add: prefix_filled_def ls)
  from "in" have "?tg \<in> (\<lambda>i. tag (?ls ! i)) ` {..<?n}" by (simp only: img)
  then have "\<exists>j<?n. tag (?ls ! j) = ?tg" by (auto simp: image_iff)
  then obtain j where j: "j < ?n" "tag (?ls ! j) = ?tg" by (elim exE conjE)
  with v nE have "j < ?E \<and> valid (?ls ! j) \<and> tag (?ls ! j) = ?tg" by simp
  then have c: "cached st a" unfolding cached_iff [OF wf] by blast
  let ?x = "\<lparr>valid = True, tag = ?tg, lru = lru_count st\<rparr>"
  from access_data_touch2 [OF wf, of a] c obtain i st' where
    acc: "access_data a st = Inr st'" and i: "i < ?E"
    and ch: "cache st' = (cache st)[?k := ?ls[i := ?x]]"
    and hi: "valid (?ls ! i)" "tag (?ls ! i) = ?tg"
    by blast
  have same: "valid (?ls[i := ?x] ! m) = valid (?ls ! m) \<and> tag (?ls[i := ?x] ! m) = tag (?ls ! m)"
    if "m < ?E" for m
    using that hi len by (cases "m = i") simp_all
  have g: "glob_E st' = ?E" "length (cache st') = length (cache st)"
    using access_data_globals [OF acc] by simp_all
  have ls': "cache st' ! ?k = ?ls[i := ?x]" using kl by (simp add: ch)
  have "(\<lambda>m. tag (?ls[i := ?x] ! m)) ` {..<?n} = (\<lambda>m. tag (?ls ! m)) ` {..<?n}"
    using same nE by (intro image_cong) auto
  then have "prefix_filled st' ?k seen"
    using pf kl nE v img same by (simp add: prefix_filled_def g ls')
  with acc access_data_hit_counters [OF wf c acc] show ?thesis by simp
qed

lemma prefix_filled_new:
  assumes wf: "wf_cache st" and pf: "prefix_filled st (set_of st a) seen"
    and new: "tag_of st a \<notin> seen" and room: "card seen < glob_E st"
  shows "\<exists>st'. access_data a st = Inr st' \<and>
           prefix_filled st' (set_of st a) (insert (tag_of st a) seen) \<and>
           evict_cnt st' = evict_cnt st \<and> miss_cnt st' = miss_cnt st + 1"
proof -
  let ?ls = "lines_of st a" and ?tg = "tag_of st a" and ?E = "glob_E st" and ?n = "card seen"
  let ?k = "set_of st a"
  have ls: "cache st ! ?k = ?ls" by (simp add: lines_of_def)
  have len: "length ?ls = ?E" by (rule wf_set_of(3) [OF wf])
  from pf have kl: "?k < length (cache st)" and fin: "finite seen"
    and v: "\<forall>i<?E. valid (?ls ! i) \<longleftrightarrow> i < ?n"
    and img: "(\<lambda>i. tag (?ls ! i)) ` {..<?n} = seen"
    by (simp_all add: prefix_filled_def ls)
  have nc: "\<not> cached st a"
  proof
    assume "cached st a"
    then obtain j where "j < ?E" "valid (?ls ! j)" "tag (?ls ! j) = ?tg"
      unfolding cached_iff [OF wf] by blast
    with v have "j < ?n" "tag (?ls ! j) = ?tg" by simp_all
    then have "?tg \<in> (\<lambda>i. tag (?ls ! i)) ` {..<?n}" by (metis imageI lessThan_iff)
    then have "?tg \<in> seen" by (simp only: img)
    with new show False by simp
  qed
  have h: "hit_loop ?ls ?tg ?E 0 = None"
    using nc by (simp add: cached_hit_loop [OF wf])
  have "\<not> valid (?ls ! ?n)" using v room by simp
  then have "\<not> set_full st a" using room by (auto simp: set_full_iff [OF wf])
  then obtain i where f: "fill_loop ?ls ?E 0 = Some i"
    by (auto simp: set_full_fill_loop [OF wf])
  from fill_loop_Some [OF f] have i: "i < ?E" "\<not> valid (?ls ! i)" "\<forall>k<i. valid (?ls ! k)"
    by simp_all
  have "i = ?n"
  proof (rule antisym)
    show "?n \<le> i" using i(1,2) v by (meson not_le_imp_less)
    show "i \<le> ?n"
    proof (rule ccontr)
      assume "\<not> i \<le> ?n"
      then have "?n < i" by simp
      with i(3) have "valid (?ls ! ?n)" by simp
      with v room show False by simp
    qed
  qed
  let ?y = "(?ls ! ?n)\<lparr>lru := lru_count st, valid := True, tag := ?tg\<rparr>"
  let ?st' = "st\<lparr>miss_cnt := miss_cnt st + 1, cache := (cache st)[?k := ?ls[?n := ?y]]\<rparr>"
  have acc: "access_data a st = Inr ?st'"
    using access_data_fill [OF wf h f] \<open>i = ?n\<close> by simp
  have ls': "cache ?st' ! ?k = ?ls[?n := ?y]" using kl by simp
  have card': "card (insert ?tg seen) = Suc ?n" using fin new by simp
  have v': "\<forall>m<?E. valid (?ls[?n := ?y] ! m) \<longleftrightarrow> m < Suc ?n"
    using v len room by (auto simp: nth_list_update less_Suc_eq)
  have "(\<lambda>m. tag (?ls[?n := ?y] ! m)) ` {..<?n} = (\<lambda>m. tag (?ls ! m)) ` {..<?n}"
    by (intro image_cong) auto
  then have img': "(\<lambda>m. tag (?ls[?n := ?y] ! m)) ` {..<Suc ?n} = insert ?tg seen"
    using img len room by (simp add: lessThan_Suc)
  have "prefix_filled ?st' ?k (insert ?tg seen)"
    unfolding prefix_filled_def card' ls'
    using kl fin room v' img' by simp
  with acc show ?thesis by simp
qed

lemma prefix_filled_run:
  assumes "wf_cache st" and "prefix_filled st k seen"
    and "\<forall>a \<in> set as. set_of st a = k"
    and "card (seen \<union> tag_of st ` set as) \<le> glob_E st"
  shows "\<exists>st'. access_seq as st = Inr st' \<and>
           evict_cnt st' = evict_cnt st \<and>
           miss_cnt st' = miss_cnt st + of_nat (card (seen \<union> tag_of st ` set as) - card seen)"
  using assms
proof (induction as arbitrary: st seen)
  case Nil
  then show ?case by simp
next
  case (Cons a as)
  let ?tg = "tag_of st a" and ?T = "seen \<union> tag_of st ` set (a # as)"
  have k: "set_of st a = k" using Cons.prems(3) by simp
  have fin: "finite seen" using Cons.prems(2) by (simp add: prefix_filled_def)
  then have finT: "finite ?T" by simp
  have pf: "prefix_filled st (set_of st a) seen" using Cons.prems(2) k by simp
  show ?case
  proof (cases "?tg \<in> seen")
    case True
    from prefix_filled_seen [OF Cons.prems(1) pf True] obtain st1 where
      1: "access_data a st = Inr st1" and pf1: "prefix_filled st1 k seen"
      and ev: "evict_cnt st1 = evict_cnt st" and mi: "miss_cnt st1 = miss_cnt st"
      using k by auto
    have wf1: "wf_cache st1" using 1 Cons.prems(1) by (rule access_data_wf)
    have tg1: "tag_of st1 = tag_of st" and s1: "set_of st1 = set_of st"
      using access_data_same_set [OF 1] by (simp_all add: fun_eq_iff)
    have E1: "glob_E st1 = glob_E st" using access_data_globals [OF 1] by simp
    have T: "?T = seen \<union> tag_of st ` set as" using True by auto
    have "\<exists>st'. access_seq as st1 = Inr st' \<and> evict_cnt st' = evict_cnt st1 \<and>
            miss_cnt st' = miss_cnt st1 + of_nat (card (seen \<union> tag_of st1 ` set as) - card seen)"
    proof (rule Cons.IH [OF wf1 pf1])
      show "\<forall>a\<in>set as. set_of st1 a = k" using Cons.prems(3) by (simp add: s1)
      show "card (seen \<union> tag_of st1 ` set as) \<le> glob_E st1"
        using Cons.prems(4) by (simp only: tg1 E1 T)
    qed
    then show ?thesis using 1 ev mi by (simp only: tg1 T access_seq.simps sum.case)
  next
    case False
    have c1: "card (insert ?tg seen) = Suc (card seen)" using fin False by simp
    have T: "?T = insert ?tg seen \<union> tag_of st ` set as" by auto
    have "card (insert ?tg seen) \<le> card ?T"
      using finT by (intro card_mono) auto
    then have le: "Suc (card seen) \<le> card ?T" by (simp only: c1)
    then have room: "card seen < glob_E st" using Cons.prems(4) by simp
    from prefix_filled_new [OF Cons.prems(1) pf False room] obtain st1 where
      1: "access_data a st = Inr st1" and pf1: "prefix_filled st1 k (insert ?tg seen)"
      and ev: "evict_cnt st1 = evict_cnt st" and mi: "miss_cnt st1 = miss_cnt st + 1"
      using k by auto
    have wf1: "wf_cache st1" using 1 Cons.prems(1) by (rule access_data_wf)
    have tg1: "tag_of st1 = tag_of st" and s1: "set_of st1 = set_of st"
      using access_data_same_set [OF 1] by (simp_all add: fun_eq_iff)
    have E1: "glob_E st1 = glob_E st" using access_data_globals [OF 1] by simp
    have "\<exists>st'. access_seq as st1 = Inr st' \<and> evict_cnt st' = evict_cnt st1 \<and>
            miss_cnt st' = miss_cnt st1 +
              of_nat (card (insert ?tg seen \<union> tag_of st1 ` set as) - card (insert ?tg seen))"
    proof (rule Cons.IH [OF wf1 pf1])
      show "\<forall>a\<in>set as. set_of st1 a = k" using Cons.prems(3) by (simp add: s1)
      show "card (insert ?tg seen \<union> tag_of st1 ` set as) \<le> glob_E st1"
        using Cons.prems(4) by (simp only: tg1 E1 T)
    qed
    then obtain st' where 2: "access_seq as st1 = Inr st'" and ev': "evict_cnt st' = evict_cnt st1"
      and mi': "miss_cnt st' = miss_cnt st1 + of_nat (card ?T - Suc (card seen))"
      by (auto simp only: tg1 T [symmetric] c1)
    have "card ?T - card seen = Suc (card ?T - Suc (card seen))" using le by simp
    then have "(of_nat (card ?T - card seen) :: 32 word) = of_nat (card ?T - Suc (card seen)) + 1"
      by (simp only: of_nat_Suc) simp
    with 1 2 ev ev' mi mi' show ?thesis by simp
  qed
qed

lemma sint_of_nat_small:
  assumes "n < 2 ^ 31"
  shows "sint (of_nat n :: 32 word) = int n"
proof -
  have "- (2 ^ 31) \<le> int n" by (rule order_trans [of _ 0]) simp_all
  moreover have "int n < 2 ^ 31" using assms by (simp flip: of_nat_less_iff)
  ultimately have "signed_take_bit 31 (int n) = int n"
    by (intro signed_take_bit_int_eq_self) simp_all
  then show ?thesis by (simp add: signed_of_nat)
qed

section \<open>The example run\<close>

lemmas demo_defs = st_fresh_def st_one_def st_two_def st_three_def empty_line_def

lemma st_fresh_init: "init_cache True (globals0 1 2 1) = Inr st_fresh"
  unfolding demo_defs by code_simp

lemma st_one_reach: "access_seq [0] st_fresh = Inr st_one"
  unfolding demo_defs by code_simp

lemma st_two_reach: "access_seq [0, 0] st_fresh = Inr st_two"
  unfolding demo_defs by code_simp

lemma st_three_reach: "access_seq [0, 0, 4] st_fresh = Inr st_three"
  unfolding demo_defs by code_simp

lemma demo_wf: "wf_cache st_fresh" "wf_cache st_one" "wf_cache st_two" "wf_cache st_three"
  by (simp_all add: demo_defs wf_cache_def lines_ok_def)

text \<open>
  The two scenarios of the specification with a trace: \<open>s = 1\<close>, \<open>E = 1\<close>, \<open>b = 1\<close>
  with \<open>L 0\<close>, \<open>L 8\<close>, \<open>L 0\<close> gives 0 hits, 3 misses, 2 evictions; \<open>s = 2\<close>, \<open>E = 1\<close>,
  \<open>b = 1\<close> with \<open>L 0\<close>, \<open>M 0\<close> gives 2 hits, 1 miss, 0 evictions.
\<close>

lemma scenario_A:
  "(case init_cache True (globals0 1 1 1) of
      Inr st0 \<Rightarrow>
        (case replay_trace [(CHR ''L'', 0), (CHR ''L'', 8), (CHR ''L'', 0)] st0 of
           Inr st \<Rightarrow> (hit_cnt st, miss_cnt st, evict_cnt st) = (0, 3, 2)
         | Inl e \<Rightarrow> False)
    | Inl e \<Rightarrow> False)"
  by code_simp

lemma scenario_B:
  "(case init_cache True (globals0 2 1 1) of
      Inr st0 \<Rightarrow>
        (case replay_trace [(CHR ''L'', 0), (CHR ''M'', 0)] st0 of
           Inr st \<Rightarrow> (hit_cnt st, miss_cnt st, evict_cnt st) = (2, 1, 0)
         | Inl e \<Rightarrow> False)
    | Inl e \<Rightarrow> False)"
  by code_simp

section \<open>Claims\<close>

subsection \<open>C1\<close>

text \<open>
  C1 does not hold of the code. With \<open>s = 1\<close>, \<open>E = 2\<close>, \<open>b = 1\<close>, from the state
  \<open>st_fresh\<close> that \<open>init_cache\<close> builds (lemma \<open>st_fresh_init\<close>), the accesses to the
  addresses 0, 4, 0 (fill of tag 0, fill of tag 1, hit on tag 0) leave set 0 full
  with the tags 0 and 1, both with recency 0, since only a hit advances the clock.
  The most recent access to tag 1 is the second access, that to tag 0 the third:
  tag 1 is the line whose most recent access is the oldest. The access to address 8
  (tag 2) nevertheless evicts tag 0, and tag 1 stays.
\<close>

theorem lru_violation:
  "map (addr_tag 1 1) [0, 4, 0] = [0, 1, 0] \<and>
   last_access_spec [0, 1, 0] 1 = 2 \<and> last_access_spec [0, 1, 0] 0 = 3 \<and>
   (case access_seq [0, 4, 0] st_fresh of
      Inr st \<Rightarrow> cache st ! 0 = [\<lparr>valid = True, tag = 0, lru = 0\<rparr>, \<lparr>valid = True, tag = 1, lru = 0\<rparr>] \<and>
                hit_cnt st = 1 \<and> lru_count st = 1 \<and> addr_tag 1 1 8 = 2 \<and>
                (case access_data 8 st of
                   Inr st' \<Rightarrow> map tag (cache st' ! 0) = [2, 1] \<and> evict_cnt st' = 1
                 | Inl e \<Rightarrow> False)
    | Inl e \<Rightarrow> False)"
  unfolding demo_defs by code_simp

subsection \<open>C2\<close>

text \<open>
  C2, as stated, fails. In the run with \<open>s = 1\<close>, \<open>E = 2\<close>, \<open>b = 1\<close>, after the two
  accesses to address 0 (a fill, then a hit) the clock is 1 and not 2, and the line
  that was hit has the recency 0, the value the clock had before it was advanced.
\<close>

theorem clock_counterexample:
  "init_cache True (globals0 1 2 1) = Inr st_fresh \<and>
   (case access_seq [0, 0] st_fresh of
      Inr st' \<Rightarrow> lru_count st' = 1 \<and> cache st' ! 0 ! 0 = \<lparr>valid = True, tag = 0, lru = 0\<rparr>
    | Inl e \<Rightarrow> False)"
  unfolding demo_defs by code_simp

text \<open>
  C2, amended: the clock starts at 0 and \<open>init_cache\<close> leaves it there; every access
  to a well-formed cache touches exactly one line of the set of the address, which
  afterwards is valid, holds the tag of the address and has as recency the value
  the clock had at the call (on a hit, a fill and an eviction alike); and a hit
  advances the clock by exactly one.
\<close>

theorem clock_and_stamp:
  assumes "wf_cache st"
  shows "lru_count (globals0 sv Ev bv) = 0 \<and>
         (case init_cache heap_ok (globals0 sv Ev bv) of
            Inr st0 \<Rightarrow> lru_count st0 = 0 | Inl e \<Rightarrow> True) \<and>
         (\<exists>i st'. access_data a st = Inr st' \<and> i < glob_E st \<and>
            cache st' = (cache st)[set_of st a :=
              (lines_of st a)[i := \<lparr>valid = True, tag = tag_of st a, lru = lru_count st\<rparr>]] \<and>
            (cached st a \<longrightarrow> lru_count st' = lru_count st + 1))"
proof -
  have 1: "lru_count (globals0 sv Ev bv) = 0" by (simp add: globals0_def)
  have 2: "(case init_cache heap_ok (globals0 sv Ev bv) of
            Inr st0 \<Rightarrow> lru_count st0 = 0 | Inl e \<Rightarrow> True)"
    by (simp add: init_cache_def globals0_def Let_def)
  from access_data_touch [OF assms, of a] obtain i st' where
    3: "access_data a st = Inr st'" "i < glob_E st"
       "cache st' = (cache st)[set_of st a :=
              (lines_of st a)[i := \<lparr>valid = True, tag = tag_of st a, lru = lru_count st\<rparr>]]"
    by blast
  have "cached st a \<longrightarrow> lru_count st' = lru_count st + 1"
    using access_data_hit_clock [OF assms _ 3(1)] by blast
  with 1 2 3 show ?thesis by blast
qed

theorem clock_and_stamp_witness:
  "wf_cache st_two \<and> cached st_two 0 \<and>
   (case access_data 0 st_two of Inr st' \<Rightarrow> lru_count st' = 2 | Inl e \<Rightarrow> False)"
proof -
  have c: "cached st_two 0" unfolding demo_defs by code_simp
  from clock_and_stamp [OF demo_wf(3), of 0 0 0 True 0] c obtain st' where
    "access_data 0 st_two = Inr st'" "lru_count st' = lru_count st_two + 1"
    by blast
  then show ?thesis using demo_wf(3) c by (simp add: demo_defs)
qed

subsection \<open>C3\<close>

text \<open>
  C3, as stated, fails: the line that is overwritten does not get the new clock
  value. In the run with \<open>s = 1\<close>, \<open>E = 2\<close>, \<open>b = 1\<close>, after the accesses to 0, 0 and
  4 set 0 is full and the clock is 1; the access to address 8 (tag 2) overwrites
  line 0 and gives it the recency 1, the value of the clock at the call, and
  not an advanced value 2.
\<close>

theorem evict_stamp_counterexample:
  "access_seq [0, 0, 4] st_fresh = Inr st_three \<and> \<not> cached st_three 8 \<and> set_full st_three 8 \<and>
   lru_count st_three = 1 \<and>
   (case access_data 8 st_three of
      Inr st' \<Rightarrow> cache st' ! 0 ! 0 = \<lparr>valid = True, tag = 2, lru = 1\<rparr> \<and> lru_count st' = 1
    | Inl e \<Rightarrow> False)"
  unfolding demo_defs by code_simp

text \<open>
  C3, amended: on an access to a full set with no matching tag, \<open>access_data\<close>
  increments the eviction counter (and the miss counter), selects the line \<open>r\<close> with
  the smallest recency among the \<open>E\<close> lines of the set, the first such line in storage
  order, overwrites its tag with the tag of the address, sets its recency to the
  value of the clock at the call and leaves it valid. Every other line is unchanged.
\<close>

theorem evict_path:
  assumes "wf_cache st" and "\<not> cached st a" and "set_full st a"
  shows "\<exists>r st'. access_data a st = Inr st' \<and>
           r < glob_E st \<and>
           (\<forall>k<glob_E st. sint (lru (lines_of st a ! r)) \<le> sint (lru (lines_of st a ! k))) \<and>
           (\<forall>k<r. sint (lru (lines_of st a ! r)) < sint (lru (lines_of st a ! k))) \<and>
           evict_cnt st' = evict_cnt st + 1 \<and>
           miss_cnt st' = miss_cnt st + 1 \<and> hit_cnt st' = hit_cnt st \<and>
           cache st' = (cache st)[set_of st a :=
              (lines_of st a)[r := \<lparr>valid = True, tag = tag_of st a, lru = lru_count st\<rparr>]]"
proof -
  let ?ls = "lines_of st a" and ?E = "glob_E st"
  let ?r = "evict_loop ?ls ?E 0 0"
  have h: "hit_loop ?ls (tag_of st a) ?E 0 = None"
    using assms(1,2) by (simp add: cached_hit_loop)
  have f: "fill_loop ?ls ?E 0 = None"
    using assms(1,3) by (simp add: set_full_fill_loop)
  have E: "0 < ?E" using assms(1) by (simp add: wf_cache_def)
  have r: "?r < ?E" using evict_loop_range [of ?ls ?E 0 0] E by auto
  have m: "(\<forall>k<?E. sint (lru (?ls ! ?r)) \<le> sint (lru (?ls ! k))) \<and>
           (\<forall>k<?r. sint (lru (?ls ! ?r)) < sint (lru (?ls ! k)))"
    using evict_loop_min [of 0 ?ls 0 ?E] by simp
  have "valid (?ls ! ?r)" using f r by (simp add: fill_loop_None)
  then have "(?ls ! ?r)\<lparr>lru := c, tag := t\<rparr> = \<lparr>valid = True, tag = t, lru = c\<rparr>" for c t
    by simp
  with access_data_evict [OF assms(1) h f] r m
  show ?thesis by auto
qed

theorem evict_path_witness:
  "wf_cache st_three \<and> \<not> cached st_three 8 \<and> set_full st_three 8 \<and>
   (case access_data 8 st_three of Inr st' \<Rightarrow> evict_cnt st' = 1 \<and> miss_cnt st' = 3 | Inl e \<Rightarrow> False)"
proof -
  have c: "\<not> cached st_three 8" unfolding demo_defs by code_simp
  have f: "set_full st_three 8" unfolding demo_defs by code_simp
  from evict_path [OF demo_wf(4) c f] obtain st' where
    "access_data 8 st_three = Inr st'" "evict_cnt st' = evict_cnt st_three + 1"
    "miss_cnt st' = miss_cnt st_three + 1"
    by blast
  then show ?thesis using demo_wf(4) c f by (simp add: demo_defs)
qed

subsection \<open>C4\<close>

text \<open>
  C4, as stated, fails: on a hit the line's recency is not the new clock value. In
  the run with \<open>s = 1\<close>, \<open>E = 2\<close>, \<open>b = 1\<close>, after the access to address 0 the
  second access to address 0 hits line 0 of set 0; afterwards the clock is 1 and the
  recency of the line is 0, the value the clock had before it was advanced.
\<close>

theorem hit_stamp_counterexample:
  "access_seq [0] st_fresh = Inr st_one \<and> cached st_one 0 \<and>
   (case access_data 0 st_one of
      Inr st' \<Rightarrow> lru (cache st' ! 0 ! 0) = 0 \<and> lru_count st' = 1
    | Inl e \<Rightarrow> False)"
  unfolding demo_defs by code_simp

text \<open>
  C4, amended: if some line of the selected set is valid and holds the tag of the
  address, \<open>access_data\<close> returns at the first such line \<open>i\<close>: it increments the hit
  counter, sets the recency of line \<open>i\<close> to the value of the clock at the call and
  advances the clock by one; the miss and eviction counters and every other line are
  unchanged.
\<close>

theorem hit_path:
  assumes "wf_cache st" and "cached st a"
  shows "\<exists>i st'. access_data a st = Inr st' \<and>
           i < glob_E st \<and>
           valid (lines_of st a ! i) \<and> tag (lines_of st a ! i) = tag_of st a \<and>
           (\<forall>k<i. \<not> (valid (lines_of st a ! k) \<and> tag (lines_of st a ! k) = tag_of st a)) \<and>
           hit_cnt st' = hit_cnt st + 1 \<and>
           lru_count st' = lru_count st + 1 \<and>
           miss_cnt st' = miss_cnt st \<and> evict_cnt st' = evict_cnt st \<and>
           cache st' = (cache st)[set_of st a :=
              (lines_of st a)[i := (lines_of st a ! i)\<lparr>lru := lru_count st\<rparr>]]"
proof -
  from assms obtain i where i: "hit_loop (lines_of st a) (tag_of st a) (glob_E st) 0 = Some i"
    by (auto simp: cached_hit_loop)
  from hit_loop_Some [OF i] access_data_hit [OF assms(1) i]
  show ?thesis by auto
qed

theorem hit_path_witness:
  "wf_cache st_one \<and> cached st_one 0 \<and>
   (case access_data 0 st_one of Inr st' \<Rightarrow> hit_cnt st' = 1 \<and> lru_count st' = 1 | Inl e \<Rightarrow> False)"
proof -
  have c: "cached st_one 0" unfolding demo_defs by code_simp
  from hit_path [OF demo_wf(2) c] obtain st' where
    "access_data 0 st_one = Inr st'" "hit_cnt st' = hit_cnt st_one + 1"
    "lru_count st' = lru_count st_one + 1"
    by blast
  then show ?thesis using demo_wf(2) c by (simp add: demo_defs)
qed

subsection \<open>C5\<close>

text \<open>
  C5, as stated, fails: the line that is filled does not get the new clock value.
  In the run with \<open>s = 1\<close>, \<open>E = 2\<close>, \<open>b = 1\<close>, after the accesses to 0 and 0 the
  clock is 1; the access to address 4 (tag 1, set 0) fills line 1 with recency 1,
  the value of the clock at the call, and not with an advanced value 2.
\<close>

theorem fill_stamp_counterexample:
  "access_seq [0, 0] st_fresh = Inr st_two \<and> \<not> cached st_two 4 \<and> \<not> set_full st_two 4 \<and>
   lru_count st_two = 1 \<and>
   (case access_data 4 st_two of
      Inr st' \<Rightarrow> cache st' ! 0 ! 1 = \<lparr>valid = True, tag = 1, lru = 1\<rparr> \<and> lru_count st' = 1
    | Inl e \<Rightarrow> False)"
  unfolding demo_defs by code_simp

text \<open>
  C5, amended: if no line of the selected set matches and some line is invalid,
  \<open>access_data\<close> increments the miss counter and fills the first invalid line in
  storage order: the line becomes valid, with the tag of the address and with the
  value of the clock at the call as recency. The eviction and hit counters and every
  other line are unchanged.
\<close>

theorem fill_path:
  assumes "wf_cache st" and "\<not> cached st a" and "\<not> set_full st a"
  shows "\<exists>i st'. access_data a st = Inr st' \<and>
           i < glob_E st \<and>
           \<not> valid (lines_of st a ! i) \<and> (\<forall>k<i. valid (lines_of st a ! k)) \<and>
           miss_cnt st' = miss_cnt st + 1 \<and>
           evict_cnt st' = evict_cnt st \<and> hit_cnt st' = hit_cnt st \<and>
           cache st' = (cache st)[set_of st a :=
              (lines_of st a)[i := \<lparr>valid = True, tag = tag_of st a, lru = lru_count st\<rparr>]]"
proof -
  have h: "hit_loop (lines_of st a) (tag_of st a) (glob_E st) 0 = None"
    using assms(1,2) by (simp add: cached_hit_loop)
  from assms(1,3) obtain i where i: "fill_loop (lines_of st a) (glob_E st) 0 = Some i"
    by (auto simp: set_full_fill_loop)
  have "(l :: cache_line)\<lparr>lru := c, valid := True, tag := t\<rparr> = \<lparr>valid = True, tag = t, lru = c\<rparr>"
    for l c t by simp
  with fill_loop_Some [OF i] access_data_fill [OF assms(1) h i]
  show ?thesis by auto
qed

theorem fill_path_witness:
  "wf_cache st_two \<and> \<not> cached st_two 4 \<and> \<not> set_full st_two 4 \<and>
   (case access_data 4 st_two of Inr st' \<Rightarrow> miss_cnt st' = 2 \<and> evict_cnt st' = 0 | Inl e \<Rightarrow> False)"
proof -
  have c: "\<not> cached st_two 4" unfolding demo_defs by code_simp
  have f: "\<not> set_full st_two 4" unfolding demo_defs by code_simp
  from fill_path [OF demo_wf(3) c f] obtain st' where
    "access_data 4 st_two = Inr st'" "miss_cnt st' = miss_cnt st_two + 1"
    "evict_cnt st' = evict_cnt st_two"
    by blast
  then show ?thesis using demo_wf(3) c f by (simp add: demo_defs)
qed

subsection \<open>C6\<close>

text \<open>
  C6, as stated, fails: with \<open>s = 32\<close>, \<open>E = 1\<close>, \<open>b = 4\<close> (all positive, \<open>s + b = 36\<close>
  below 64) the address \<open>2 ^ 35\<close> has the reference set index
  \<open>(addr >> b) & (2^s - 1) = 2 ^ 31\<close>, while the \<open>int\<close> variable \<open>currSet\<close> of
  \<open>access_data\<close> holds \<open>- 2 ^ 31\<close>.
\<close>

theorem decomposition_counterexample:
  "(0::nat) < 32 \<and> (0::nat) < 1 \<and> (0::nat) < 4 \<and> (32::nat) + 4 < 64 \<and>
   currSet 32 4 0x800000000 = - 2147483648 \<and>
   uint (drop_bit 4 (0x800000000 :: mem_addr_t) AND (2 ^ 32 - 1)) = 2147483648"
  by (simp add: currSet_def addr_tag_def)

text \<open>
  C6, amended: for every address and every geometry with \<open>s\<close>, \<open>E\<close>, \<open>b\<close> positive,
  \<open>s + b\<close> below 64 and \<open>s\<close> at most 31 (so that the set index fits the \<open>int\<close>
  variable \<open>currSet\<close>), the decomposition computed by \<open>access_data\<close> equals the
  reference formulas: the tag is the address shifted right by \<open>s + b\<close>, and the set
  number \<open>(addr - (tag << (s+b))) >> b\<close>, converted to \<open>int\<close>, is
  \<open>(addr >> b) & (2^s - 1)\<close>. A call of \<open>access_data\<close> that returns has written the
  reference tag into one line of the set with the reference index and has changed no
  other line; and two addresses with the same reference tag and set index give the
  same result of \<open>access_data\<close>: both depend only on the address and the geometry.
\<close>

theorem decomposition_reference:
  assumes "0 < sv" and "0 < Ev" and "0 < bv" and "sv + bv < 64" and "sv \<le> 31"
  shows "addr_tag sv bv addr = drop_bit (sv + bv) addr \<and>
         currSet sv bv addr = uint (drop_bit bv addr AND (2 ^ sv - 1)) \<and>
         (glob_s st = sv \<and> glob_b st = bv \<and> glob_E st = Ev \<and> access_data addr st = Inr st' \<longrightarrow>
            (\<exists>i<Ev. cache st' = (cache st)[unat (drop_bit bv addr AND (2 ^ sv - 1)) :=
               (cache st ! unat (drop_bit bv addr AND (2 ^ sv - 1)))
                 [i := \<lparr>valid = True, tag = drop_bit (sv + bv) addr, lru = lru_count st\<rparr>]])) \<and>
         (glob_s st = sv \<and> glob_b st = bv \<and>
          drop_bit (sv + bv) addr = drop_bit (sv + bv) addr' \<and>
          drop_bit bv addr AND (2 ^ sv - 1) = drop_bit bv addr' AND (2 ^ sv - 1) \<longrightarrow>
            access_data addr st = access_data addr' st)"
proof -
  have t: "addr_tag sv bv x = drop_bit (sv + bv) x" for x by (simp add: addr_tag_def)
  have c: "currSet sv bv x = uint (drop_bit bv x AND (2 ^ sv - 1))" for x
    by (rule currSet_mask [OF assms(5)])
  have 3: "\<exists>i<Ev. cache st' = (cache st)[unat (drop_bit bv addr AND (2 ^ sv - 1)) :=
               (cache st ! unat (drop_bit bv addr AND (2 ^ sv - 1)))
                 [i := \<lparr>valid = True, tag = drop_bit (sv + bv) addr, lru = lru_count st\<rparr>]]"
    if g: "glob_s st = sv" "glob_b st = bv" "glob_E st = Ev" and r: "access_data addr st = Inr st'"
  proof -
    have k: "set_of st addr = unat (drop_bit bv addr AND (2 ^ sv - 1))"
      by (simp add: set_of_def g c)
    have E: "0 < glob_E st" using g assms(2) by simp
    from access_data_Inr_touch [OF r E] show ?thesis
      by (simp add: lines_of_def k tag_of_def g t)
  qed
  have 4: "access_data addr st = access_data addr' st"
    if "glob_s st = sv" "glob_b st = bv"
      "drop_bit (sv + bv) addr = drop_bit (sv + bv) addr'"
      "drop_bit bv addr AND (2 ^ sv - 1) = drop_bit bv addr' AND (2 ^ sv - 1)"
    by (rule access_data_same_decomposition) (simp_all add: that t c)
  from t c 3 4 show ?thesis by blast
qed

theorem decomposition_reference_witness:
  "(0::nat) < 1 \<and> (0::nat) < 2 \<and> (1::nat) + 1 < 64 \<and> (1::nat) \<le> 31 \<and>
   addr_tag 1 1 6 = 1 \<and> currSet 1 1 6 = 1 \<and>
   access_data 6 st_three = Inr (st_three\<lparr>miss_cnt := 3,
      cache := [[\<lparr>valid = True, tag = 0, lru = 0\<rparr>, \<lparr>valid = True, tag = 1, lru = 1\<rparr>],
                [\<lparr>valid = True, tag = 1, lru = 1\<rparr>, empty_line]]\<rparr>) \<and>
   access_data 6 st_three = access_data 7 st_three"
proof -
  let ?res = "st_three\<lparr>miss_cnt := 3,
      cache := [[\<lparr>valid = True, tag = 0, lru = 0\<rparr>, \<lparr>valid = True, tag = 1, lru = 1\<rparr>],
                [\<lparr>valid = True, tag = 1, lru = 1\<rparr>, empty_line]]\<rparr>"
  have r: "access_data 6 st_three = Inr ?res"
    unfolding demo_defs by code_simp
  have g: "glob_s st_three = 1" "glob_b st_three = 1" "glob_E st_three = 2"
    by (simp_all add: demo_defs)
  have d: "drop_bit (1 + 1) (6 :: mem_addr_t) = drop_bit (1 + 1) 7"
    "drop_bit 1 (6 :: mem_addr_t) AND (2 ^ 1 - 1) = drop_bit 1 7 AND (2 ^ 1 - 1)"
    by simp_all
  have h: "(0::nat) < 1" "(0::nat) < 2" "(0::nat) < 1" "(1::nat) + 1 < 64" "(1::nat) \<le> 31"
    by simp_all
  from decomposition_reference [OF h, of 6 st_three ?res 7] g r d
  have "addr_tag 1 1 6 = drop_bit (1 + 1) 6 \<and>
        currSet 1 1 6 = uint (drop_bit 1 (6 :: mem_addr_t) AND (2 ^ 1 - 1)) \<and>
        access_data 6 st_three = access_data 7 st_three"
    by blast
  then show ?thesis using r by simp
qed

subsection \<open>C7\<close>

text \<open>
  C7. In every well-formed cache state and for every address, two back-to-back
  calls of \<open>access_data\<close> on the address, which is what \<open>replay_trace\<close> does for a
  record \<open>M\<close>, both return, and the second is a hit: after the first call the address
  is cached, and the second call increments the hit counter and leaves the miss and
  eviction counters alone. If the address was not cached before, the first call is a
  miss (one more miss, no hit), with one eviction if the set of the address was full
  and none otherwise.
\<close>

theorem modify_record:
  assumes "wf_cache st"
  shows "\<exists>st1 st2. access_data a st = Inr st1 \<and> access_data a st1 = Inr st2 \<and>
           replay_trace [(CHR ''M'', a)] st = Inr st2 \<and>
           cached st1 a \<and>
           hit_cnt st2 = hit_cnt st1 + 1 \<and> miss_cnt st2 = miss_cnt st1 \<and>
           evict_cnt st2 = evict_cnt st1 \<and>
           (\<not> cached st a \<longrightarrow>
              hit_cnt st1 = hit_cnt st \<and> miss_cnt st1 = miss_cnt st + 1 \<and>
              evict_cnt st1 = evict_cnt st + (if set_full st a then 1 else 0))"
proof -
  from access_data_total [OF assms] obtain st1 where 1: "access_data a st = Inr st1" by blast
  have wf1: "wf_cache st1" using 1 assms by (rule access_data_wf)
  from access_data_total [OF wf1] obtain st2 where 2: "access_data a st1 = Inr st2" by blast
  have c1: "cached st1 a" using assms 1 by (rule access_data_cached_after)
  have r: "replay_trace [(CHR ''M'', a)] st = Inr st2"
    using 1 2 by (simp add: record_accesses_def)
  from access_data_hit_counters [OF wf1 c1 2] access_data_miss_counters [OF assms _ 1] 1 2 c1 r
  show ?thesis by blast
qed

theorem modify_record_witness:
  "wf_cache st_three \<and> \<not> cached st_three 8 \<and> set_full st_three 8 \<and>
   (case replay_trace [(CHR ''M'', 8)] st_three of
      Inr st2 \<Rightarrow> hit_cnt st2 = 2 \<and> miss_cnt st2 = 3 \<and> evict_cnt st2 = 1
    | Inl e \<Rightarrow> False)"
proof -
  have c: "\<not> cached st_three 8" unfolding demo_defs by code_simp
  have f: "set_full st_three 8" unfolding demo_defs by code_simp
  have "\<exists>st2. replay_trace [(CHR ''M'', 8)] st_three = Inr st2 \<and>
    hit_cnt st2 = hit_cnt st_three + 1 \<and> miss_cnt st2 = miss_cnt st_three + 1 \<and>
    evict_cnt st2 = evict_cnt st_three + 1"
    using modify_record [OF demo_wf(4), of 8] c f by (elim exE conjE) (simp del: replay_trace.simps)
  then obtain st2 where
    "replay_trace [(CHR ''M'', 8)] st_three = Inr st2"
    "hit_cnt st2 = hit_cnt st_three + 1" "miss_cnt st2 = miss_cnt st_three + 1"
    "evict_cnt st2 = evict_cnt st_three + 1"
    by (elim exE conjE)
  then show ?thesis using demo_wf(4) c f by (simp add: demo_defs)
qed

subsection \<open>C8\<close>

text \<open>
  C8, as stated, fails: \<open>E + 1\<close> distinct tags do not fit a set of \<open>E\<close> lines. With
  \<open>s = 1\<close>, \<open>E = 2\<close>, \<open>b = 1\<close> the addresses 0, 4, 8 map to set 0 and carry the three
  tags 0, 1, 2; starting from the empty cache the third access evicts a line.
\<close>

theorem capacity_counterexample:
  "init_cache True (globals0 1 2 1) = Inr st_fresh \<and>
   currSet 1 1 0 = 0 \<and> currSet 1 1 4 = 0 \<and> currSet 1 1 8 = 0 \<and>
   addr_tag 1 1 0 = 0 \<and> addr_tag 1 1 4 = 1 \<and> addr_tag 1 1 8 = 2 \<and>
   (case access_seq [0, 4, 8] st_fresh of
      Inr st \<Rightarrow> evict_cnt st = 1 \<and> miss_cnt st = 3
    | Inl e \<Rightarrow> False)"
  unfolding demo_defs by code_simp

text \<open>
  C8, amended: starting from the cache \<open>init_cache\<close> builds for a valid geometry, for
  every sequence of accesses whose addresses map to a single set and carry \<open>E\<close> or
  fewer distinct tags, the sequence runs to its end, the eviction counter stays 0 and
  the miss counter is the number of distinct tags.
\<close>

theorem no_eviction_within_capacity:
  assumes "valid_geometry sv Ev bv"
    and "init_cache heap_ok (globals0 sv Ev bv) = Inr st0"
    and "\<forall>a \<in> set as. currSet sv bv a = k"
    and "card (addr_tag sv bv ` set as) \<le> Ev"
  shows "\<exists>st. access_seq as st0 = Inr st \<and> evict_cnt st = 0 \<and>
              sint (miss_cnt st) = int (card (addr_tag sv bv ` set as))"
proof -
  have g: "sv \<le> 30" "sv + bv < 64" "0 < Ev" and E31: "Ev < 2 ^ 31"
    using assms(1) by (simp_all add: valid_geometry_def)
  note i = init_cache_wf [OF g assms(2)]
  have tg: "tag_of st0 = addr_tag sv bv" using i(2) by (simp add: fun_eq_iff tag_of_def)
  show ?thesis
  proof (cases as)
    case Nil
    then show ?thesis using i(3) by simp
  next
    case (Cons a0 as')
    then have "currSet sv bv a0 = k" using assms(3) by simp
    moreover have "sv \<le> 31" using g(1) by simp
    ultimately have kr: "0 \<le> k \<and> k < 2 ^ sv" using currSet_range [of sv bv a0] by simp
    have kl: "nat k < length (cache st0)"
      using kr i(4) by (simp add: nat_less_iff)
    have "\<forall>i<Ev. \<not> valid (cache st0 ! nat k ! i)"
      using kl i(4) by (simp add: empty_line_def)
    then have pf: "prefix_filled st0 (nat k) {}"
      using kl i(2) by (simp add: prefix_filled_def)
    have same: "\<forall>a \<in> set as. set_of st0 a = nat k"
      using assms(3) i(2) by (simp add: set_of_def)
    have "card ({} \<union> tag_of st0 ` set as) \<le> glob_E st0"
      using assms(4) i(2) by (simp add: tg)
    from prefix_filled_run [OF i(1) pf same this] obtain st where
      st: "access_seq as st0 = Inr st" "evict_cnt st = evict_cnt st0"
      "miss_cnt st = miss_cnt st0 + of_nat (card ({} \<union> tag_of st0 ` set as) - card ({} :: mem_addr_t set))"
      by blast
    then have m: "miss_cnt st = of_nat (card (addr_tag sv bv ` set as))"
      using i(3) by (simp add: tg)
    have "card (addr_tag sv bv ` set as) < 2 ^ 31" using assms(4) E31 by simp
    from sint_of_nat_small [OF this] st(1,2) m i(3) show ?thesis by simp
  qed
qed

theorem no_eviction_within_capacity_witness:
  "valid_geometry 1 2 1 \<and> init_cache True (globals0 1 2 1) = Inr st_fresh \<and>
   currSet 1 1 0 = 0 \<and> currSet 1 1 4 = 0 \<and> addr_tag 1 1 0 = 0 \<and> addr_tag 1 1 4 = 1 \<and>
   (case access_seq [0, 4, 0, 4, 4] st_fresh of
      Inr st \<Rightarrow> evict_cnt st = 0 \<and> sint (miss_cnt st) = 2
    | Inl e \<Rightarrow> False)"
proof -
  have g: "valid_geometry 1 2 1" by (simp add: valid_geometry_def)
  have t: "addr_tag 1 1 0 = 0" "addr_tag 1 1 4 = 1" by (simp_all add: addr_tag_def)
  have c: "currSet 1 1 0 = 0" "currSet 1 1 4 = 0" by (simp_all add: currSet_def addr_tag_def)
  have k: "\<forall>a \<in> set [0, 4, 0, 4, 4]. currSet 1 1 a = 0" using c by simp
  have "addr_tag 1 1 ` set [0, 4, 0, 4, 4] = {0, 1}" using t by auto
  then have n: "card (addr_tag 1 1 ` set [0, 4, 0, 4, 4]) = 2" by simp
  then have le: "card (addr_tag 1 1 ` set [0, 4, 0, 4, 4]) \<le> 2" by simp
  from no_eviction_within_capacity [OF g st_fresh_init k le] n obtain st where
    "access_seq [0, 4, 0, 4, 4] st_fresh = Inr st" "evict_cnt st = 0" "sint (miss_cnt st) = 2"
    by auto
  then show ?thesis using g st_fresh_init t c by simp
qed

subsection \<open>C9\<close>

text \<open>
  C9. After \<open>init_cache\<close> and any sequence of calls of \<open>access_data\<close> that returns,
  no two distinct valid lines of a set hold the same tag: the invariant holds in the
  state \<open>init_cache\<close> builds (for any geometry) and in every state reached from it,
  and one call of \<open>access_data\<close> on a well-formed state, whichever of its three
  paths it takes, preserves it.
\<close>

theorem unique_tags_invariant:
  assumes "init_cache heap_ok (globals0 sv Ev bv) = Inr st0"
    and "access_seq as st0 = Inr st"
  shows "unique_tags st0 \<and> unique_tags st \<and>
         (wf_cache st1 \<and> unique_tags st1 \<and> access_data a st1 = Inr st2 \<longrightarrow> unique_tags st2)"
proof -
  have u0: "unique_tags st0" using assms(1) by (rule init_unique_tags)
  have "unique_tags st"
  proof (cases as)
    case Nil
    with assms(2) u0 show ?thesis by simp
  next
    case (Cons x xs)
    with assms(2) obtain st' where "access_data x st0 = Inr st'"
      by (auto split: sum.splits)
    with assms(1) have "wf_cache st0" by (rule init_access_wf)
    then show ?thesis using u0 assms(2) by (rule access_seq_unique)
  qed
  moreover have "wf_cache st1 \<and> unique_tags st1 \<and> access_data a st1 = Inr st2 \<longrightarrow> unique_tags st2"
    using unique_tags_step by blast
  ultimately show ?thesis using u0 by blast
qed

theorem unique_tags_invariant_witness:
  "init_cache True (globals0 1 2 1) = Inr st_fresh \<and>
   access_seq [0, 0, 4] st_fresh = Inr st_three \<and>
   unique_tags st_three \<and>
   wf_cache st_three \<and> access_data 8 st_three = Inr
     (st_three\<lparr>miss_cnt := 3, evict_cnt := 1,
        cache := [[\<lparr>valid = True, tag = 2, lru = 1\<rparr>, \<lparr>valid = True, tag = 1, lru = 1\<rparr>],
                  [empty_line, empty_line]]\<rparr>) \<and>
   unique_tags (st_three\<lparr>miss_cnt := 3, evict_cnt := 1,
        cache := [[\<lparr>valid = True, tag = 2, lru = 1\<rparr>, \<lparr>valid = True, tag = 1, lru = 1\<rparr>],
                  [empty_line, empty_line]]\<rparr>)"
proof -
  have a: "access_data 8 st_three = Inr
     (st_three\<lparr>miss_cnt := 3, evict_cnt := 1,
        cache := [[\<lparr>valid = True, tag = 2, lru = 1\<rparr>, \<lparr>valid = True, tag = 1, lru = 1\<rparr>],
                  [empty_line, empty_line]]\<rparr>)"
    unfolding demo_defs by code_simp
  from unique_tags_invariant [OF st_fresh_init st_three_reach, of st_three 8] a demo_wf(4)
    st_fresh_init st_three_reach
  show ?thesis by simp
qed

subsection \<open>C10\<close>

text \<open>
  C10, as stated, fails: with \<open>s = 32\<close>, \<open>E = 1\<close>, \<open>b = 1\<close> (all positive, \<open>s + b = 33\<close>
  below 64) the address \<open>2 ^ 32\<close> has the 64-bit set number \<open>2 ^ 31\<close>, which the
  \<open>int\<close> variable \<open>currSet\<close> holds as \<open>- 2 ^ 31\<close>: a negative index.
\<close>

theorem set_index_bounds_counterexample:
  "(0::nat) < 32 \<and> (0::nat) < 1 \<and> (32::nat) + 1 < 64 \<and> currSet 32 1 4294967296 = - 2147483648"
  by (simp add: currSet_def addr_tag_def)

text \<open>
  C10, amended: for a geometry with \<open>s\<close>, \<open>E\<close>, \<open>b\<close> positive, \<open>s + b\<close> below 64 and
  \<open>s\<close> at most 30 (so that \<open>2 ^ s\<close> fits the \<open>int\<close>s \<open>S\<close> and \<open>currSet\<close>), the set
  number of every address lies in \<open>[0, 2^s)\<close>; after \<open>init_cache\<close> every sequence of
  accesses runs without an access out of bounds, and in every state reached the set
  number is below the number of sets, every set has \<open>E\<close> lines, and the line indices
  the three scans produce are below \<open>E\<close>.
\<close>

theorem access_in_bounds:
  assumes "valid_geometry sv Ev bv"
    and "init_cache heap_ok (globals0 sv Ev bv) = Inr st0"
  shows "0 \<le> currSet sv bv addr \<and> currSet sv bv addr < 2 ^ sv \<and>
         (\<exists>st. access_seq as st0 = Inr st \<and>
               length (cache st) = 2 ^ sv \<and>
               set_of st addr < length (cache st) \<and>
               length (lines_of st addr) = Ev \<and>
               (case hit_loop (lines_of st addr) (tag_of st addr) Ev 0 of
                  Some i \<Rightarrow> i < Ev | None \<Rightarrow> True) \<and>
               (case fill_loop (lines_of st addr) Ev 0 of
                  Some i \<Rightarrow> i < Ev | None \<Rightarrow> True) \<and>
               evict_loop (lines_of st addr) Ev 0 0 < Ev)"
proof -
  have g: "sv \<le> 30" "sv + bv < 64" "0 < Ev"
    using assms(1) by (simp_all add: valid_geometry_def)
  then have "sv \<le> 31" by simp
  from currSet_range [OF this]
  have r: "0 \<le> currSet sv bv addr \<and> currSet sv bv addr < 2 ^ sv" .
  have wf0: "wf_cache st0" and g0: "glob_s st0 = sv \<and> glob_E st0 = Ev \<and> glob_b st0 = bv"
    using init_cache_wf [OF g assms(2)] by simp_all
  from access_seq_total [OF wf0] obtain st
    where st: "access_seq as st0 = Inr st" and wf: "wf_cache st" by blast
  have gs: "glob_s st = sv \<and> glob_E st = Ev \<and> glob_b st = bv"
    using access_seq_globals [OF st] g0 by simp
  have len: "length (cache st) = 2 ^ sv" using wf gs by (simp add: wf_cache_def)
  have h: "(case hit_loop ls tg Ev 0 of Some i \<Rightarrow> i < Ev | None \<Rightarrow> True)" for ls tg
    using hit_loop_Some [of ls tg Ev 0] by (simp split: option.splits)
  have f: "(case fill_loop ls Ev 0 of Some i \<Rightarrow> i < Ev | None \<Rightarrow> True)" for ls
    using fill_loop_Some [of ls Ev 0] by (simp split: option.splits)
  have e: "evict_loop ls Ev 0 0 < Ev" for ls
    using evict_loop_range [of ls Ev 0 0] g(3) by auto
  show ?thesis
    using r st len wf_set_of(2,3) [OF wf, of addr] gs h f e by auto
qed

theorem access_in_bounds_witness:
  "valid_geometry 1 2 1 \<and>
   init_cache True (globals0 1 2 1) = Inr
     \<lparr>glob_b = 1, glob_s = 1, glob_E = 2, glob_S = 2, hit_cnt = 0, miss_cnt = 0,
      evict_cnt = 0,
      cache = [[\<lparr>valid = False, tag = 0, lru = 0\<rparr>, \<lparr>valid = False, tag = 0, lru = 0\<rparr>],
               [\<lparr>valid = False, tag = 0, lru = 0\<rparr>, \<lparr>valid = False, tag = 0, lru = 0\<rparr>]],
      lru_count = 0\<rparr> \<and>
   0 \<le> currSet 1 1 6 \<and> currSet 1 1 6 < 2"
proof -
  have g: "valid_geometry 1 2 1" by (simp add: valid_geometry_def)
  have i: "init_cache True (globals0 1 2 1) = Inr
     \<lparr>glob_b = 1, glob_s = 1, glob_E = 2, glob_S = 2, hit_cnt = 0, miss_cnt = 0,
      evict_cnt = 0,
      cache = [[\<lparr>valid = False, tag = 0, lru = 0\<rparr>, \<lparr>valid = False, tag = 0, lru = 0\<rparr>],
               [\<lparr>valid = False, tag = 0, lru = 0\<rparr>, \<lparr>valid = False, tag = 0, lru = 0\<rparr>]],
      lru_count = 0\<rparr>"
    by code_simp
  from access_in_bounds [OF g i, of 6 "[0, 4, 8]"] g i show ?thesis by simp
qed

end
